theory Spec2Isabelle
  imports Main "HOL-Library.Sublist"
begin

section \<open>The promise engine of dom/promise/Promise.cpp\<close>

subsection \<open>Values\<close>

text \<open>
  A \<open>JS::Value\<close> as far as Promise.cpp looks at it: it asks \<open>isUndefined\<close>, \<open>isObject\<close>,
  whether \<open>UNWRAP_OBJECT(Promise, ...)\<close> succeeds, and whether \<open>js::ErrorFromException\<close>
  finds an error report. Objects are named by a number; an error object carries whether
  its principal is the system principal. A promise object names a slot of the heap below.
\<close>

datatype jsval =
    UndefinedValue
  | NumberValue int
  | PlainObject nat
  | ErrorObject nat bool
  | PromiseObject nat

fun isUndefined :: "jsval \<Rightarrow> bool" where
  "isUndefined UndefinedValue = True"
| "isUndefined _ = False"

fun isObject :: "jsval \<Rightarrow> bool" where
  "isObject (PlainObject _) = True"
| "isObject (ErrorObject _ _) = True"
| "isObject (PromiseObject _) = True"
| "isObject _ = False"

text \<open>\<open>js::ErrorFromException\<close>: the error report of an error object, none otherwise.\<close>

fun ErrorFromException :: "jsval \<Rightarrow> nat option" where
  "ErrorFromException (ErrorObject n _) = Some n"
| "ErrorFromException _ = None"

fun IsSystemPrincipal :: "jsval \<Rightarrow> bool" where
  "IsSystemPrincipal (ErrorObject _ c) = c"
| "IsSystemPrincipal _ = False"

subsection \<open>Promises, callbacks, runnables\<close>

datatype PromiseState = Pending | Resolved | Rejected

datatype PromiseTaskSync = SyncTask | AsyncTask

text \<open>\<open>PromiseCallback::Task\<close>: which half of a settlement a callback was made for.\<close>

datatype Task = TaskResolve | TaskReject

text \<open>What a user-supplied continuation (\<open>AnyCallback\<close>) does with its argument.\<close>

datatype outcome = Returns jsval | Throws jsval

text \<open>
  The three callback classes. \<open>ResolvePromiseCallback p\<close> and \<open>RejectPromiseCallback p\<close>
  are constructed in \<open>Promise::ResolveInternal\<close> with the promise they forward into;
  \<open>WrapperPromiseCallback p t f\<close> wraps the user continuation number \<open>f\<close>, registered for
  the half \<open>t\<close>, whose result settles the promise \<open>p\<close> that \<open>Then\<close> returned.
\<close>

datatype PromiseCallback =
    ResolvePromiseCallback nat
  | RejectPromiseCallback nat
  | WrapperPromiseCallback nat Task nat

fun mNextPromise :: "PromiseCallback \<Rightarrow> nat" where
  "mNextPromise (ResolvePromiseCallback p) = p"
| "mNextPromise (RejectPromiseCallback p) = p"
| "mNextPromise (WrapperPromiseCallback p _ _) = p"

record promise =
  mResult :: jsval
  mState :: PromiseState
  mTaskPending :: bool
  mHadRejectCallback :: bool
  mResolvePending :: bool
  mResolveCallbacks :: "PromiseCallback list"
  mRejectCallbacks :: "PromiseCallback list"

text \<open>The constructor \<open>Promise::Promise\<close>.\<close>

definition new_Promise :: promise where
  "new_Promise = \<lparr> mResult = UndefinedValue, mState = Pending, mTaskPending = False,
     mHadRejectCallback = False, mResolvePending = False,
     mResolveCallbacks = [], mRejectCallbacks = [] \<rparr>"

datatype runnable =
    PromiseTask nat
  | WorkerPromiseTask nat
  | PromiseResolverTask nat jsval PromiseState
  | WorkerPromiseResolverTask nat jsval PromiseState

text \<open>An \<open>AsyncErrorReporter\<close> posted to the main thread: the error report, the value it
  was taken from, and \<open>isChromeError\<close>.\<close>

record AsyncErrorReporter =
  report :: nat
  exn :: jsval
  isChromeError :: bool

text \<open>
  The state of one thread: the promise objects (a promise is named by its index; objects
  are never removed, a destroyed one stays with its fields cleared), the event queue of
  the thread (\<open>NS_DispatchToCurrentThread\<close>, \<open>worker->Dispatch\<close> append to it), the error
  reporters posted so far, the list of \<open>PromiseCallback::Call\<close> invocations made so far,
  the function objects that \<open>Promise::CreateFunction\<close> has made (each with its two
  reserved slots, the promise and the task), and the behaviour of the user continuations.
\<close>

record world =
  heap :: "promise list"
  eventQueue :: "runnable list"
  NS_IsMainThread :: bool
  IsChromeWorker :: bool
  reporters :: "AsyncErrorReporter list"
  calls :: "(PromiseCallback \<times> jsval) list"
  functionObjects :: "(nat \<times> Task) list"
  AnyCallback :: "nat \<Rightarrow> jsval \<Rightarrow> outcome"

definition Dispatch :: "runnable \<Rightarrow> world \<Rightarrow> world" where
  "Dispatch r w = w\<lparr> eventQueue := eventQueue w @ [r] \<rparr>"

definition modify :: "nat \<Rightarrow> (promise \<Rightarrow> promise) \<Rightarrow> world \<Rightarrow> world" where
  "modify p f w = w\<lparr> heap := (heap w)[p := f (heap w ! p)] \<rparr>"

text \<open>\<open>UNWRAP_OBJECT(Promise, ...)\<close> succeeds on a promise object of the heap.\<close>

definition UNWRAP_OBJECT_Promise :: "world \<Rightarrow> jsval \<Rightarrow> nat option" where
  "UNWRAP_OBJECT_Promise w v =
     (case v of PromiseObject r \<Rightarrow> if r < length (heap w) then Some r else None
      | _ \<Rightarrow> None)"

subsection \<open>Registration\<close>

text \<open>\<open>Promise::AppendCallbacks\<close>; a null callback is \<open>None\<close>.\<close>

definition AppendCallbacks ::
  "nat \<Rightarrow> PromiseCallback option \<Rightarrow> PromiseCallback option \<Rightarrow> world \<Rightarrow> world" where
  "AppendCallbacks p aResolveCallback aRejectCallback w =
     (let w1 = (case aResolveCallback of None \<Rightarrow> w
                | Some cb \<Rightarrow> modify p (\<lambda>x. x\<lparr> mResolveCallbacks := mResolveCallbacks x @ [cb] \<rparr>) w);
          w2 = (case aRejectCallback of None \<Rightarrow> w1
                | Some cb \<Rightarrow> modify p (\<lambda>x. x\<lparr> mHadRejectCallback := True,
                                               mRejectCallbacks := mRejectCallbacks x @ [cb] \<rparr>) w1)
      in if mState (heap w2 ! p) \<noteq> Pending \<and> \<not> mTaskPending (heap w2 ! p)
         then modify p (\<lambda>x. x\<lparr> mTaskPending := True \<rparr>)
                (Dispatch (if NS_IsMainThread w2 then PromiseTask p else WorkerPromiseTask p) w2)
         else w2)"

subsection \<open>Settlement\<close>

text \<open>
  \<open>Promise::RunTask\<close> calls \<open>Call\<close> on each callback it took, and a \<open>Call\<close> may settle
  another promise synchronously, which runs that promise's \<open>RunTask\<close> inside the call.
  The nested loops are kept as one list of calls still to be made, the innermost loop
  first: a function that may start a \<open>RunTask\<close> returns the new state together with the
  calls of that \<open>RunTask\<close>, and \<open>drain\<close> below makes them before any call that was
  already waiting. Nothing follows \<open>RunTask\<close> in any of its callers, so this is the order
  of the calls of the source.
\<close>

type_synonym pending = "(PromiseCallback \<times> jsval) list"

text \<open>
  The head of \<open>Promise::RunTask\<close>: swap out the callbacks of the settled state, clear both
  arrays, and pair each callback with \<open>mResult\<close>. (\<open>MOZ_ASSERT(mState != Pending)\<close> is
  compiled out of a release build; with \<open>mState = Pending\<close> the reject callbacks are
  taken, as the conditional expression of the source does.) An index that names no
  promise object has nothing to run.
\<close>

definition RunTask_swap :: "nat \<Rightarrow> world \<Rightarrow> world \<times> pending" where
  "RunTask_swap p w =
     (if p < length (heap w)
      then let x = heap w ! p;
               callbacks = (if mState x = Resolved then mResolveCallbacks x
                            else mRejectCallbacks x)
           in (modify p (\<lambda>x. x\<lparr> mResolveCallbacks := [], mRejectCallbacks := [] \<rparr>) w,
               map (\<lambda>cb. (cb, mResult x)) callbacks)
      else (w, []))"

text \<open>\<open>Promise::RunResolveTask\<close>.\<close>

definition RunResolveTask ::
  "nat \<Rightarrow> jsval \<Rightarrow> PromiseState \<Rightarrow> PromiseTaskSync \<Rightarrow> world \<Rightarrow> world \<times> pending" where
  "RunResolveTask p aValue aState aAsynchronous w =
     (if aAsynchronous = AsyncTask
      then (Dispatch (if NS_IsMainThread w then PromiseResolverTask p aValue aState
                      else WorkerPromiseResolverTask p aValue aState) w, [])
      else RunTask_swap p
             (modify p (\<lambda>x. x\<lparr> mResult := aValue, mState := aState \<rparr>) w))"

text \<open>\<open>Promise::ResolveInternal\<close>; an \<open>Optional\<close> value that was not passed is \<open>None\<close>.\<close>

definition ResolveInternal ::
  "nat \<Rightarrow> jsval option \<Rightarrow> PromiseTaskSync \<Rightarrow> world \<Rightarrow> world \<times> pending" where
  "ResolveInternal p aValue aAsynchronous w =
     (let w1 = modify p (\<lambda>x. x\<lparr> mResolvePending := True \<rparr>) w;
          plain = RunResolveTask p (case aValue of Some v \<Rightarrow> v | None \<Rightarrow> UndefinedValue)
                    Resolved aAsynchronous w1
      in case aValue of
           None \<Rightarrow> plain
         | Some v \<Rightarrow>
             if isObject v
             then (case UNWRAP_OBJECT_Promise w1 v of
                     Some nextPromise \<Rightarrow>
                       (AppendCallbacks nextPromise (Some (ResolvePromiseCallback p))
                          (Some (RejectPromiseCallback p)) w1, [])
                   | None \<Rightarrow> plain)
             else plain)"

text \<open>\<open>Promise::RejectInternal\<close>.\<close>

definition RejectInternal ::
  "nat \<Rightarrow> jsval option \<Rightarrow> PromiseTaskSync \<Rightarrow> world \<Rightarrow> world \<times> pending" where
  "RejectInternal p aValue aAsynchronous w =
     RunResolveTask p (case aValue of Some v \<Rightarrow> v | None \<Rightarrow> UndefinedValue)
       Rejected aAsynchronous (modify p (\<lambda>x. x\<lparr> mResolvePending := True \<rparr>) w)"

text \<open>
  Modelled from the spec: \<open>PromiseCallback::Call\<close> of the three callback classes
  (PromiseCallback.cpp is not among the sources). Section 4.3: an adapter "fires and
  calls this.ApplySettlement(disposition, v.result), recursively re-entering 4.1 if
  v.result is itself chainable", on the synchronous path of 4.1 ("used only internally
  while chaining"). Section 4.2: the promise returned by \<open>Then\<close> "is fulfilled with the
  return value of onFulfill (or rejected if it fails), and rejected with the return value
  of onReject". Every call is entered in \<open>calls\<close> first.
\<close>

definition Call :: "PromiseCallback \<Rightarrow> jsval \<Rightarrow> world \<Rightarrow> world \<times> pending" where
  "Call cb v w =
     (let w1 = w\<lparr> calls := calls w @ [(cb, v)] \<rparr>
      in case cb of
           ResolvePromiseCallback p \<Rightarrow> ResolveInternal p (Some v) SyncTask w1
         | RejectPromiseCallback p \<Rightarrow> RejectInternal p (Some v) SyncTask w1
         | WrapperPromiseCallback p t f \<Rightarrow>
             (case AnyCallback w f v of
                Throws e \<Rightarrow> RejectInternal p (Some e) SyncTask w1
              | Returns r \<Rightarrow>
                  (case t of TaskResolve \<Rightarrow> ResolveInternal p (Some r) SyncTask w1
                   | TaskReject \<Rightarrow> RejectInternal p (Some r) SyncTask w1)))"

subsection \<open>The calls of a synchronous settlement come to an end\<close>

text \<open>
  A weight for the termination of \<open>drain\<close>: every registered callback and every waiting
  call weighs 1 or 3, a call that will register a pair of adapters weighs 3, and each call
  made takes at least 1 from the sum.
\<close>

fun wR :: "PromiseCallback \<Rightarrow> nat" where
  "wR (WrapperPromiseCallback _ _ _) = 3" | "wR _ = 1"
fun wJ :: "PromiseCallback \<Rightarrow> nat" where
  "wJ (RejectPromiseCallback _) = 1" | "wJ _ = 3"
definition wprom :: "promise \<Rightarrow> nat" where
  "wprom x = sum_list (map wR (mResolveCallbacks x)) + sum_list (map wJ (mRejectCallbacks x))"
definition wcall :: "nat \<Rightarrow> PromiseCallback \<times> jsval \<Rightarrow> nat" where
  "wcall n c = (case c of (ResolvePromiseCallback _, PromiseObject r) \<Rightarrow> if r < n then 3 else 1
      | (ResolvePromiseCallback _, _) \<Rightarrow> 1 | (RejectPromiseCallback _, _) \<Rightarrow> 1 | _ \<Rightarrow> 3)"
definition wheap :: "world \<Rightarrow> nat" where
  "wheap w = sum_list (map wprom (heap w))"
definition weight :: "world \<times> pending \<Rightarrow> nat" where
  "weight a = (case a of (w, cs) \<Rightarrow> wheap w + sum_list (map (wcall (length (heap w))) cs))"

lemma length_modify [simp]: "length (heap (modify p f w)) = length (heap w)"
  by (simp add: modify_def)

lemma length_Dispatch [simp]: "heap (Dispatch r w) = heap w"
  by (simp add: Dispatch_def)

lemma wheap_modify:
  "p < length (heap w) \<Longrightarrow> wheap (modify p f w) + wprom (heap w ! p) = wheap w + wprom (f (heap w ! p))"
proof -
  assume p: "p < length (heap w)"
  have "wprom (heap w ! p) \<le> sum_list (map wprom (heap w))"
    using p by (simp add: member_le_sum_list)
  then show ?thesis
    using p by (simp add: wheap_def modify_def map_update sum_list_update)
qed

lemma wheap_modify_out: "\<not> p < length (heap w) \<Longrightarrow> wheap (modify p f w) = wheap w"
  by (simp add: wheap_def modify_def list_update_beyond)

lemma wheap_modify_same:
  "wprom (f (heap w ! p)) = wprom (heap w ! p) \<Longrightarrow> wheap (modify p f w) = wheap w"
  using wheap_modify [of p w f] wheap_modify_out [of p w f] by (cases "p < length (heap w)") auto

lemma nth_modify: "heap (modify p f w) ! q = (if q = p \<and> p < length (heap w) then f (heap w ! p) else heap w ! q)"
  by (cases "p < length (heap w)") (auto simp: modify_def list_update_beyond)

lemma wheap_AppendCallbacks:
  "r < length (heap w) \<Longrightarrow>
   wheap (AppendCallbacks r (Some (ResolvePromiseCallback p)) (Some (RejectPromiseCallback p)) w) = wheap w + 2
   \<and> length (heap (AppendCallbacks r (Some (ResolvePromiseCallback p)) (Some (RejectPromiseCallback p)) w)) = length (heap w)"
proof -
  assume r: "r < length (heap w)"
  let ?w1 = "modify r (\<lambda>x. x\<lparr> mResolveCallbacks := mResolveCallbacks x @ [ResolvePromiseCallback p] \<rparr>) w"
  let ?w2 = "modify r (\<lambda>x. x\<lparr> mHadRejectCallback := True,
                 mRejectCallbacks := mRejectCallbacks x @ [RejectPromiseCallback p] \<rparr>) ?w1"
  have 1: "wheap ?w1 = wheap w + 1"
    using wheap_modify [OF r, of "\<lambda>x. x\<lparr> mResolveCallbacks := mResolveCallbacks x @ [ResolvePromiseCallback p] \<rparr>"]
    by (simp add: wprom_def)
  have r1: "r < length (heap ?w1)" using r by simp
  have 2: "wheap ?w2 = wheap ?w1 + 1"
    using wheap_modify [OF r1, of "\<lambda>x. x\<lparr> mHadRejectCallback := True,
                 mRejectCallbacks := mRejectCallbacks x @ [RejectPromiseCallback p] \<rparr>"]
    by (simp add: wprom_def)
  have 3: "wheap (modify r (\<lambda>x. x\<lparr> mTaskPending := True \<rparr>) (Dispatch t ?w2)) = wheap ?w2" for t
    by (rule trans [OF wheap_modify_same]) (simp_all add: wprom_def wheap_def)
  show ?thesis
    using 1 2 3 by (simp add: AppendCallbacks_def Let_def)
qed

lemma wcall_le_wR: "(\<forall>r. v = PromiseObject r \<longrightarrow> \<not> r < n) \<Longrightarrow> wcall n (cb, v) \<le> wR cb"
  by (cases cb; cases v) (auto simp: wcall_def)

lemma wcall_le_wJ: "wcall n (cb, v) \<le> wJ cb"
  by (cases cb; cases v) (auto simp: wcall_def)

lemma weight_RunTask_swap:
  assumes "p < length (heap w) \<Longrightarrow> mState (heap w ! p) = Resolved
           \<Longrightarrow> UNWRAP_OBJECT_Promise w (mResult (heap w ! p)) = None"
  shows "weight (RunTask_swap p w) \<le> wheap w \<and> length (heap (fst (RunTask_swap p w))) = length (heap w)"
proof (cases "p < length (heap w)")
  case False
  then show ?thesis by (simp add: RunTask_swap_def weight_def)
next
  case True
  let ?x = "heap w ! p"
  let ?n = "length (heap w)"
  have m: "wheap (modify p (\<lambda>x. x\<lparr> mResolveCallbacks := [], mRejectCallbacks := [] \<rparr>) w) + wprom ?x = wheap w"
    using wheap_modify [OF True, of "\<lambda>x. x\<lparr> mResolveCallbacks := [], mRejectCallbacks := [] \<rparr>"]
    by (simp add: wprom_def)
  have j: "sum_list (map (wcall ?n) (map (\<lambda>cb. (cb, mResult ?x)) (mRejectCallbacks ?x))) \<le> wprom ?x"
    unfolding wprom_def map_map comp_def
    by (rule trans_le_add2) (rule sum_list_mono, rule wcall_le_wJ)
  have r: "sum_list (map (wcall ?n) (map (\<lambda>cb. (cb, mResult ?x)) (mResolveCallbacks ?x))) \<le> wprom ?x"
    if "mState ?x = Resolved"
  proof -
    have "\<forall>r. mResult ?x = PromiseObject r \<longrightarrow> \<not> r < ?n"
      using assms [OF True that] by (auto simp: UNWRAP_OBJECT_Promise_def)
    then show ?thesis
      unfolding wprom_def map_map comp_def
      by (intro trans_le_add1 sum_list_mono wcall_le_wR)
  qed
  show ?thesis
    using True m j r by (auto simp: RunTask_swap_def weight_def Let_def)
qed

lemma UNWRAP_modify [simp]: "UNWRAP_OBJECT_Promise (modify p f w) v = UNWRAP_OBJECT_Promise w v"
  by (cases v) (simp_all add: UNWRAP_OBJECT_Promise_def)

lemma UNWRAP_calls [simp]: "UNWRAP_OBJECT_Promise (w\<lparr> calls := c \<rparr>) v = UNWRAP_OBJECT_Promise w v"
  by (cases v) (simp_all add: UNWRAP_OBJECT_Promise_def)

lemma weight_RunResolveTask:
  assumes "aState = Resolved \<longrightarrow> UNWRAP_OBJECT_Promise w aValue = None"
  shows "weight (RunResolveTask p aValue aState SyncTask w) \<le> wheap w
         \<and> length (heap (fst (RunResolveTask p aValue aState SyncTask w))) = length (heap w)"
proof -
  let ?w1 = "modify p (\<lambda>x. x\<lparr> mResult := aValue, mState := aState \<rparr>) w"
  have h: "wheap ?w1 = wheap w"
    by (rule wheap_modify_same) (simp add: wprom_def)
  have "UNWRAP_OBJECT_Promise ?w1 (mResult (heap ?w1 ! p)) = None"
    if "p < length (heap ?w1)" "mState (heap ?w1 ! p) = Resolved"
    using assms that by (simp add: nth_modify)
  from weight_RunTask_swap [of p ?w1, OF this] h show ?thesis
    by (simp add: RunResolveTask_def)
qed

lemma weight_RejectInternal:
  "weight (RejectInternal p aValue SyncTask w) \<le> wheap w
   \<and> length (heap (fst (RejectInternal p aValue SyncTask w))) = length (heap w)"
proof -
  let ?w1 = "modify p (\<lambda>x. x\<lparr> mResolvePending := True \<rparr>) w"
  have h: "wheap ?w1 = wheap w"
    by (rule wheap_modify_same) (simp add: wprom_def)
  have "Rejected = Resolved \<longrightarrow> UNWRAP_OBJECT_Promise ?w1 v = None" for v by simp
  from weight_RunResolveTask [OF this] h show ?thesis
    by (simp add: RejectInternal_def)
qed

lemma weight_ResolveInternal:
  "weight (ResolveInternal p (Some v) SyncTask w)
     \<le> wheap w + (if UNWRAP_OBJECT_Promise w v = None then 0 else 2)
   \<and> length (heap (fst (ResolveInternal p (Some v) SyncTask w))) = length (heap w)"
proof -
  let ?w1 = "modify p (\<lambda>x. x\<lparr> mResolvePending := True \<rparr>) w"
  have h: "wheap ?w1 = wheap w"
    by (rule wheap_modify_same) (simp add: wprom_def)
  show ?thesis
  proof (cases "UNWRAP_OBJECT_Promise w v")
    case None
    then have "Resolved = Resolved \<longrightarrow> UNWRAP_OBJECT_Promise ?w1 v = None" by simp
    from weight_RunResolveTask [OF this, of p] h None show ?thesis
      by (simp add: ResolveInternal_def Let_def)
  next
    case (Some r)
    then have r: "r < length (heap ?w1)" and o: "isObject v"
      by (auto simp: UNWRAP_OBJECT_Promise_def split: jsval.splits if_splits)
    from wheap_AppendCallbacks [OF r, of p] h Some o show ?thesis
      by (simp add: ResolveInternal_def weight_def Let_def)
  qed
qed

lemma wheap_calls [simp]: "wheap (w\<lparr> calls := c \<rparr>) = wheap w"
  by (simp add: wheap_def)

lemma weight_Call:
  "weight (Call cb v w) < wheap w + wcall (length (heap w)) (cb, v)
   \<and> length (heap (fst (Call cb v w))) = length (heap w)"
proof (cases cb)
  case (ResolvePromiseCallback p)
  have "wcall (length (heap w)) (cb, v) = (if UNWRAP_OBJECT_Promise w v = None then 1 else 3)"
    using ResolvePromiseCallback by (auto simp: wcall_def UNWRAP_OBJECT_Promise_def split: jsval.splits)
  with weight_ResolveInternal [of p v "w\<lparr> calls := calls w @ [(cb, v)] \<rparr>"] ResolvePromiseCallback
  show ?thesis by (auto simp: Call_def split: if_splits)
next
  case (RejectPromiseCallback p)
  with weight_RejectInternal [of p "Some v" "w\<lparr> calls := calls w @ [(cb, v)] \<rparr>"]
  show ?thesis by (simp add: Call_def wcall_def)
next
  case (WrapperPromiseCallback p t f)
  have c: "wcall (length (heap w)) (cb, v) = 3"
    using WrapperPromiseCallback by (simp add: wcall_def)
  let ?w1 = "w\<lparr> calls := calls w @ [(cb, v)] \<rparr>"
  have 1: "weight (ResolveInternal p (Some r) SyncTask ?w1) < wheap w + 3
           \<and> length (heap (fst (ResolveInternal p (Some r) SyncTask ?w1))) = length (heap w)" for r
    using weight_ResolveInternal [of p r ?w1] by (simp split: if_splits)
  have 2: "weight (RejectInternal p (Some r) SyncTask ?w1) < wheap w + 3
           \<and> length (heap (fst (RejectInternal p (Some r) SyncTask ?w1))) = length (heap w)" for r
    using weight_RejectInternal [of p "Some r" ?w1] by simp
  show ?thesis
    unfolding c using 1 2 WrapperPromiseCallback
    by (cases "AnyCallback w f v"; cases t) (simp_all add: Call_def Let_def)
qed

text \<open>
  The loop of \<open>Promise::RunTask\<close>, with the loops nested in its calls: make the first
  waiting call, then the calls of the \<open>RunTask\<close> it started, then the rest.
\<close>

function drain :: "world \<Rightarrow> pending \<Rightarrow> world" where
  "drain w [] = w"
| "drain w ((cb, v) # rest) = (case Call cb v w of (w', nested) \<Rightarrow> drain w' (nested @ rest))"
  by pat_completeness auto
termination
proof (relation "measure weight", goal_cases)
  case 1
  show ?case by simp
next
  case (2 w cb v rest x1 x2)
  then have c: "Call cb v w = (x1, x2)" by simp
  from weight_Call [of cb v w] c
  have l: "length (heap x1) = length (heap w)"
    and d: "weight (x1, x2) < wheap w + wcall (length (heap w)) (cb, v)"
    by simp_all
  show ?case
    using d by (simp add: weight_def l)
qed

definition exec :: "world \<times> pending \<Rightarrow> world" where
  "exec a = drain (fst a) (snd a)"

text \<open>\<open>Promise::RunTask\<close>.\<close>

definition RunTask :: "nat \<Rightarrow> world \<Rightarrow> world" where
  "RunTask p w = exec (RunTask_swap p w)"

text \<open>
  \<open>Promise::MaybeResolveInternal\<close> and \<open>Promise::MaybeRejectInternal\<close>. The last
  parameter has its default in Promise.h, which is not among the sources; every caller
  in Promise.cpp leaves it out, and the callers below pass \<open>AsyncTask\<close>, the default
  that section 4.1 of the specification gives for a settlement from outside.
\<close>

definition MaybeResolveInternal ::
  "nat \<Rightarrow> jsval option \<Rightarrow> PromiseTaskSync \<Rightarrow> world \<Rightarrow> world" where
  "MaybeResolveInternal p aValue aAsynchronous w =
     (if mResolvePending (heap w ! p) then w
      else exec (ResolveInternal p aValue aAsynchronous w))"

definition MaybeRejectInternal ::
  "nat \<Rightarrow> jsval option \<Rightarrow> PromiseTaskSync \<Rightarrow> world \<Rightarrow> world" where
  "MaybeRejectInternal p aValue aAsynchronous w =
     (if mResolvePending (heap w ! p) then w
      else exec (RejectInternal p aValue aAsynchronous w))"

text \<open>\<open>Promise::MaybeResolve\<close> and \<open>Promise::MaybeReject\<close>.\<close>

definition MaybeResolve :: "nat \<Rightarrow> jsval option \<Rightarrow> world \<Rightarrow> world" where
  "MaybeResolve p aValue w = MaybeResolveInternal p aValue AsyncTask w"

definition MaybeReject :: "nat \<Rightarrow> jsval option \<Rightarrow> world \<Rightarrow> world" where
  "MaybeReject p aValue w = MaybeRejectInternal p aValue AsyncTask w"

text \<open>
  \<open>Promise::JSCallback\<close>, the native behind the two functions that
  \<open>Promise::CreateFunction\<close> makes: the promise and the task are read from the reserved
  slots of the function; the value is the first argument, undefined when there is none.
\<close>

definition JSCallback :: "nat \<Rightarrow> Task \<Rightarrow> jsval \<Rightarrow> world \<Rightarrow> world" where
  "JSCallback promise task v w =
     (if task = TaskResolve then MaybeResolveInternal promise (Some v) AsyncTask w
      else MaybeRejectInternal promise (Some v) AsyncTask w)"

subsection \<open>The runnables\<close>

text \<open>\<open>PromiseTask::Run\<close>, \<open>WorkerPromiseTask::WorkerRun\<close>, and
  \<open>PromiseResolverMixin::RunInternal\<close> for the two resolver tasks.\<close>

fun Run :: "runnable \<Rightarrow> world \<Rightarrow> world" where
  "Run (PromiseTask p) w = RunTask p (modify p (\<lambda>x. x\<lparr> mTaskPending := False \<rparr>) w)"
| "Run (WorkerPromiseTask p) w = RunTask p (modify p (\<lambda>x. x\<lparr> mTaskPending := False \<rparr>) w)"
| "Run (PromiseResolverTask p v st) w = exec (RunResolveTask p v st SyncTask w)"
| "Run (WorkerPromiseResolverTask p v st) w = exec (RunResolveTask p v st SyncTask w)"

text \<open>
  Modelled from the spec: the event loop of the thread, which is not among the sources.
  Section 4.4: a task enqueued "executes later, exactly once, on that context's own
  single-threaded execution loop, after previously enqueued tasks for that context (FIFO)
  and not interleaved with other tasks on the same context".
\<close>

definition ProcessNextEvent :: "world \<Rightarrow> world" where
  "ProcessNextEvent w =
     (case eventQueue w of [] \<Rightarrow> w | r # rest \<Rightarrow> Run r (w\<lparr> eventQueue := rest \<rparr>))"

fun ProcessEvents :: "nat \<Rightarrow> world \<Rightarrow> world" where
  "ProcessEvents 0 w = w"
| "ProcessEvents (Suc n) w = ProcessEvents n (ProcessNextEvent w)"

subsection \<open>Construction and \<open>then\<close>\<close>

text \<open>\<open>new Promise(window)\<close>: a new object at the end of the heap.\<close>

definition new_object :: "world \<Rightarrow> nat \<times> world" where
  "new_object w = (length (heap w), w\<lparr> heap := heap w @ [new_Promise] \<rparr>)"

text \<open>
  Modelled from the spec: \<open>PromiseCallback::Factory\<close> (PromiseCallback.cpp is not among
  the sources). Section 4.2: \<open>Then\<close> "wraps onFulfill/onReject (or absence thereof,
  meaning pass through) as Callbacks"; a continuation that was not passed is \<open>None\<close>.
\<close>

fun Factory :: "nat \<Rightarrow> nat option \<Rightarrow> Task \<Rightarrow> PromiseCallback" where
  "Factory aNextPromise (Some f) t = WrapperPromiseCallback aNextPromise t f"
| "Factory aNextPromise None TaskResolve = ResolvePromiseCallback aNextPromise"
| "Factory aNextPromise None TaskReject = RejectPromiseCallback aNextPromise"

text \<open>\<open>Promise::Then\<close> and \<open>Promise::Catch\<close>; the result is the new promise.\<close>

definition Then :: "nat \<Rightarrow> nat option \<Rightarrow> nat option \<Rightarrow> world \<Rightarrow> nat \<times> world" where
  "Then p aResolveCallback aRejectCallback w =
     (case new_object w of (promise, w1) \<Rightarrow>
        (promise,
         AppendCallbacks p (Some (Factory promise aResolveCallback TaskResolve))
           (Some (Factory promise aRejectCallback TaskReject)) w1))"

definition Catch :: "nat \<Rightarrow> nat option \<Rightarrow> world \<Rightarrow> nat \<times> world" where
  "Catch p aRejectCallback w = Then p None aRejectCallback w"

datatype nsresult = NS_ERROR_UNEXPECTED

text \<open>
  The executor \<open>PromiseInit\<close> as the constructor sees it: the calls it makes of the two
  functions it was given, in order, and whether it then returns or throws a value.
\<close>

record PromiseInit =
  capability_calls :: "(Task \<times> jsval) list"
  thrown :: "jsval option"

text \<open>
  \<open>Promise::CreateFunction\<close>; \<open>func\<close> says whether \<open>js::NewFunctionWithReserved\<close> gave a
  function.
\<close>

definition CreateFunction :: "bool \<Rightarrow> nat \<Rightarrow> Task \<Rightarrow> world \<Rightarrow> bool \<times> world" where
  "CreateFunction func aPromise aTask w =
     (if \<not> func then (False, w)
      else (True, w\<lparr> functionObjects := functionObjects w @ [(aPromise, aTask)] \<rparr>))"

text \<open>
  \<open>Promise::Constructor\<close>. \<open>aWindow\<close> says whether the global is a window, and
  \<open>resolveFunc\<close>, \<open>rejectFunc\<close> whether the two calls of \<open>CreateFunction\<close> give a
  function. The result is the error thrown into \<open>aRv\<close>, or the promise.
\<close>

definition Constructor ::
  "bool \<Rightarrow> bool \<Rightarrow> bool \<Rightarrow> PromiseInit \<Rightarrow> world \<Rightarrow> (nsresult + nat) \<times> world" where
  "Constructor aWindow resolveFunc rejectFunc aInit w =
     (if NS_IsMainThread w \<and> \<not> aWindow then (Inl NS_ERROR_UNEXPECTED, w)
      else case new_object w of (promise, w1) \<Rightarrow>
        case CreateFunction resolveFunc promise TaskResolve w1 of (ok1, w2) \<Rightarrow>
        if \<not> ok1 then (Inl NS_ERROR_UNEXPECTED, w2)
        else case CreateFunction rejectFunc promise TaskReject w2 of (ok2, w3) \<Rightarrow>
        if \<not> ok2 then (Inl NS_ERROR_UNEXPECTED, w3)
        else let w4 = fold (\<lambda>c. JSCallback promise (fst c) (snd c)) (capability_calls aInit) w3
             in case thrown aInit of
                  None \<Rightarrow> (Inr promise, w4)
                | Some e \<Rightarrow> (Inr promise, MaybeRejectInternal promise (Some e) AsyncTask w4))"

text \<open>The static \<open>Promise::Resolve\<close> and \<open>Promise::Reject\<close>.\<close>

definition Promise_Resolve :: "bool \<Rightarrow> jsval \<Rightarrow> world \<Rightarrow> (nsresult + nat) \<times> world" where
  "Promise_Resolve aWindow aValue w =
     (if NS_IsMainThread w \<and> \<not> aWindow then (Inl NS_ERROR_UNEXPECTED, w)
      else case new_object w of (promise, w1) \<Rightarrow>
        (Inr promise, MaybeResolveInternal promise (Some aValue) AsyncTask w1))"

definition Promise_Reject :: "bool \<Rightarrow> jsval \<Rightarrow> world \<Rightarrow> (nsresult + nat) \<times> world" where
  "Promise_Reject aWindow aValue w =
     (if NS_IsMainThread w \<and> \<not> aWindow then (Inl NS_ERROR_UNEXPECTED, w)
      else case new_object w of (promise, w1) \<Rightarrow>
        (Inr promise, MaybeRejectInternal promise (Some aValue) AsyncTask w1))"

subsection \<open>Teardown\<close>

text \<open>\<open>Promise::MaybeReportRejected\<close>: the reporter is posted to the main thread.\<close>

definition MaybeReportRejected :: "nat \<Rightarrow> world \<Rightarrow> world" where
  "MaybeReportRejected p w =
     (let x = heap w ! p
      in if mState x \<noteq> Rejected \<or> mHadRejectCallback x \<or> isUndefined (mResult x) then w
         else case ErrorFromException (mResult x) of
                None \<Rightarrow> w
              | Some r \<Rightarrow>
                  w\<lparr> reporters := reporters w @
                       [\<lparr> report = r, exn = mResult x,
                          isChromeError = (if NS_IsMainThread w then IsSystemPrincipal (mResult x)
                                           else IsChromeWorker w) \<rparr>] \<rparr>)"

text \<open>The cycle collector's unlink of a promise, and the destructor \<open>Promise::~Promise\<close>.\<close>

definition Unlink :: "nat \<Rightarrow> world \<Rightarrow> world" where
  "Unlink p w =
     modify p (\<lambda>x. x\<lparr> mResolveCallbacks := [], mRejectCallbacks := [],
                      mResult := UndefinedValue \<rparr>)
       (MaybeReportRejected p w)"

definition destructor :: "nat \<Rightarrow> world \<Rightarrow> world" where
  "destructor p w = modify p (\<lambda>x. x\<lparr> mResult := UndefinedValue \<rparr>) (MaybeReportRejected p w)"

section \<open>Properties\<close>

subsection \<open>Fields, and what the calls of a settlement keep\<close>

lemma fields_modify [simp]:
  "eventQueue (modify p f w) = eventQueue w"
  "NS_IsMainThread (modify p f w) = NS_IsMainThread w"
  "IsChromeWorker (modify p f w) = IsChromeWorker w"
  "reporters (modify p f w) = reporters w"
  "calls (modify p f w) = calls w"
  "functionObjects (modify p f w) = functionObjects w"
  "AnyCallback (modify p f w) = AnyCallback w"
  by (simp_all add: modify_def)

lemma fields_Dispatch [simp]:
  "eventQueue (Dispatch r w) = eventQueue w @ [r]"
  "NS_IsMainThread (Dispatch r w) = NS_IsMainThread w"
  "IsChromeWorker (Dispatch r w) = IsChromeWorker w"
  "reporters (Dispatch r w) = reporters w"
  "calls (Dispatch r w) = calls w"
  "functionObjects (Dispatch r w) = functionObjects w"
  "AnyCallback (Dispatch r w) = AnyCallback w"
  by (simp_all add: Dispatch_def)

lemma nth_modify_same [simp]: "p < length (heap w) \<Longrightarrow> heap (modify p f w) ! p = f (heap w ! p)"
  by (simp add: modify_def)

lemma nth_modify_other [simp]: "q \<noteq> p \<Longrightarrow> heap (modify p f w) ! q = heap w ! q"
  by (simp add: modify_def)

text \<open>A property that every call keeps is kept by the whole loop.\<close>

lemma drain_keeps:
  assumes "\<And>w cb v. P w \<Longrightarrow> P (fst (Call cb v w))" and "P w"
  shows "P (drain w cs)"
  using assms(2)
proof (induction w cs rule: drain.induct)
  case (1 w)
  then show ?case by simp
next
  case (2 w cb v rest)
  obtain w' nested where c: "Call cb v w = (w', nested)" by (cases "Call cb v w")
  have "P w'" using assms(1) [OF "2.prems", of cb v] c by simp
  then show ?case using "2.IH" [OF c [symmetric]] c by simp
qed

lemma drain_keeps_pending:
  assumes "\<And>w cb v rest. Q w ((cb, v) # rest) \<Longrightarrow> Q (fst (Call cb v w)) (snd (Call cb v w) @ rest)"
    and "Q w cs"
  shows "Q (drain w cs) []"
  using assms(2)
proof (induction w cs rule: drain.induct)
  case (1 w)
  then show ?case by simp
next
  case (2 w cb v rest)
  obtain w' nested where c: "Call cb v w = (w', nested)" by (cases "Call cb v w")
  have "Q w' (nested @ rest)" using assms(1) [OF "2.prems"] c by simp
  then show ?case using "2.IH" [OF c [symmetric]] c by simp
qed

lemma drain_append: "drain w (xs @ ys) = drain (drain w xs) ys"
proof (induction w xs rule: drain.induct)
  case (1 w)
  then show ?case by simp
next
  case (2 w cb v rest)
  obtain w' nested where c: "Call cb v w = (w', nested)" by (cases "Call cb v w")
  show ?case using "2.IH" [OF c [symmetric]] c by simp
qed

definition core :: "promise \<Rightarrow> PromiseState \<times> jsval \<times> bool" where
  "core x = (mState x, mResult x, mResolvePending x)"

definition callbacks_of :: "promise \<Rightarrow> PromiseCallback set" where
  "callbacks_of x = set (mResolveCallbacks x) \<union> set (mRejectCallbacks x)"

definition registered :: "world \<Rightarrow> PromiseCallback set" where
  "registered w = (\<Union>x \<in> set (heap w). callbacks_of x)"

text \<open>The promises that a registered callback or a waiting call forwards into.\<close>

definition forwarded_into :: "world \<Rightarrow> pending \<Rightarrow> nat set" where
  "forwarded_into w cs = mNextPromise ` (registered w \<union> fst ` set cs)"

lemma core_update [simp]:
  "core (x\<lparr> mResolveCallbacks := a \<rparr>) = core x"
  "core (x\<lparr> mRejectCallbacks := a \<rparr>) = core x"
  "core (x\<lparr> mTaskPending := b \<rparr>) = core x"
  "core (x\<lparr> mHadRejectCallback := b \<rparr>) = core x"
  by (simp_all add: core_def)

lemma callbacks_of_update [simp]:
  "callbacks_of (x\<lparr> mTaskPending := b \<rparr>) = callbacks_of x"
  "callbacks_of (x\<lparr> mHadRejectCallback := b \<rparr>) = callbacks_of x"
  "callbacks_of (x\<lparr> mResolvePending := b \<rparr>) = callbacks_of x"
  "callbacks_of (x\<lparr> mResult := v \<rparr>) = callbacks_of x"
  "callbacks_of (x\<lparr> mState := st \<rparr>) = callbacks_of x"
  by (simp_all add: callbacks_of_def)

lemma core_modify:
  "(\<And>x. core (f x) = core x) \<Longrightarrow> core (heap (modify q f w) ! p) = core (heap w ! p)"
  by (cases "q < length (heap w)") (auto simp: modify_def list_update_beyond nth_list_update)

lemma core_modify_other:
  "q \<noteq> p \<Longrightarrow> core (heap (modify q f w) ! p) = core (heap w ! p)"
  by simp

lemma registered_modify:
  "registered (modify q f w) \<subseteq> registered w \<union> callbacks_of (f (heap w ! q))"
proof -
  have "set ((heap w)[q := f (heap w ! q)]) \<subseteq> insert (f (heap w ! q)) (set (heap w))"
    by (rule set_update_subset_insert)
  then show ?thesis
    by (auto simp: registered_def modify_def)
qed

lemma registered_modify_same:
  "(\<And>x. callbacks_of (f x) = callbacks_of x) \<Longrightarrow> registered (modify q f w) = registered w"
proof (cases "q < length (heap w)")
  case False
  then show ?thesis by (simp add: registered_def modify_def list_update_beyond)
next
  case True
  assume f: "\<And>x. callbacks_of (f x) = callbacks_of x"
  have "(\<Union>x \<in> set ((heap w)[q := f (heap w ! q)]). callbacks_of x) = (\<Union>x \<in> set (heap w). callbacks_of x)"
    (is "?l = ?r")
  proof
    show "?l \<subseteq> ?r"
      using set_update_subset_insert [of "heap w" q "f (heap w ! q)"] True f
      by (auto simp: subset_iff) (metis nth_mem)
    show "?r \<subseteq> ?l"
    proof
      fix c assume "c \<in> ?r"
      then obtain i where i: "i < length (heap w)" "c \<in> callbacks_of (heap w ! i)"
        by (auto simp: in_set_conv_nth)
      then have "c \<in> callbacks_of ((heap w)[q := f (heap w ! q)] ! i)"
        using f by (cases "i = q") auto
      then show "c \<in> ?l"
        using i(1) by (metis (no_types, lifting) UN_I length_list_update nth_mem)
    qed
  qed
  then show ?thesis by (simp add: registered_def modify_def)
qed

lemma registered_Dispatch [simp]: "registered (Dispatch r w) = registered w"
  by (simp add: registered_def)

lemma registered_calls [simp]: "registered (w\<lparr> calls := c \<rparr>) = registered w"
  by (simp add: registered_def)

lemma registered_nth: "q < length (heap w) \<Longrightarrow> callbacks_of (heap w ! q) \<subseteq> registered w"
  unfolding registered_def by (meson UN_upper nth_mem)

lemma length_AppendCallbacks [simp]: "length (heap (AppendCallbacks r a b w)) = length (heap w)"
  by (simp add: AppendCallbacks_def Let_def split: option.splits)

lemma core_AppendCallbacks [simp]:
  "core (heap (AppendCallbacks r a b w) ! p) = core (heap w ! p)"
  by (simp add: AppendCallbacks_def Let_def core_modify split: option.splits)

lemma registered_AppendCallbacks:
  "registered (AppendCallbacks r a b w) \<subseteq> registered w \<union> set_option a \<union> set_option b"
proof -
  have 1: "registered (modify r (\<lambda>x. x\<lparr> mResolveCallbacks := mResolveCallbacks x @ [c] \<rparr>) w)
           \<subseteq> registered w \<union> {c}" for c w
  proof (cases "r < length (heap w)")
    case True
    then show ?thesis
      using registered_modify [of r "\<lambda>x. x\<lparr> mResolveCallbacks := mResolveCallbacks x @ [c] \<rparr>" w]
        registered_nth [OF True]
      by (auto simp: callbacks_of_def)
  next
    case False
    then show ?thesis by (auto simp: modify_def registered_def list_update_beyond)
  qed
  have 2: "registered (modify r (\<lambda>x. x\<lparr> mHadRejectCallback := True,
              mRejectCallbacks := mRejectCallbacks x @ [c] \<rparr>) w) \<subseteq> registered w \<union> {c}" for c w
  proof (cases "r < length (heap w)")
    case True
    then show ?thesis
      using registered_modify [of r "\<lambda>x. x\<lparr> mHadRejectCallback := True,
              mRejectCallbacks := mRejectCallbacks x @ [c] \<rparr>" w]
        registered_nth [OF True]
      by (auto simp: callbacks_of_def)
  next
    case False
    then show ?thesis by (auto simp: modify_def registered_def list_update_beyond)
  qed
  have 3: "registered (modify r (\<lambda>x. x\<lparr> mTaskPending := True \<rparr>) w) = registered w" for w
    by (simp add: registered_modify_same)
  show ?thesis
    using 1 2 by (cases a; cases b) (auto simp: AppendCallbacks_def Let_def 3 dest!: subsetD)
qed

lemma RunTask_swap_forward:
  assumes "RunTask_swap q w = (w', cs)"
  shows "registered w' \<union> fst ` set cs \<subseteq> registered w"
    and "core (heap w' ! p) = core (heap w ! p)"
    and "length (heap w') = length (heap w)"
proof -
  let ?f = "\<lambda>x. x\<lparr> mResolveCallbacks := [], mRejectCallbacks := [] \<rparr>"
  have "core (heap (modify q ?f w) ! p) = core (heap w ! p)"
    by (simp add: core_modify)
  then show "core (heap w' ! p) = core (heap w ! p)"
    using assms by (auto simp: RunTask_swap_def Let_def split: if_splits)
  show "length (heap w') = length (heap w)"
    using assms by (auto simp: RunTask_swap_def Let_def split: if_splits)
  show "registered w' \<union> fst ` set cs \<subseteq> registered w"
  proof (cases "q < length (heap w)")
    case False
    then show ?thesis using assms by (simp add: RunTask_swap_def)
  next
    case True
    have "registered (modify q ?f w) \<subseteq> registered w"
      using registered_modify [of q ?f w] by (auto simp: callbacks_of_def)
    moreover have "fst ` set cs \<subseteq> callbacks_of (heap w ! q)"
      using assms True by (auto simp: RunTask_swap_def Let_def callbacks_of_def split: if_splits)
    ultimately show ?thesis
      using assms True registered_nth [OF True] by (auto simp: RunTask_swap_def Let_def)
  qed
qed

lemma RunResolveTask_forward:
  assumes "RunResolveTask q v st a w = (w', cs)"
  shows "registered w' \<union> fst ` set cs \<subseteq> registered w"
    and "q \<noteq> p \<Longrightarrow> core (heap w' ! p) = core (heap w ! p)"
    and "length (heap w') = length (heap w)"
proof -
  let ?w1 = "modify q (\<lambda>x. x\<lparr> mResult := v, mState := st \<rparr>) w"
  have r: "registered ?w1 = registered w"
    by (simp add: registered_modify_same)
  have "registered w' \<union> fst ` set cs \<subseteq> registered w
      \<and> (q \<noteq> p \<longrightarrow> core (heap w' ! p) = core (heap w ! p))
      \<and> length (heap w') = length (heap w)"
  proof (cases a)
    case AsyncTask
    then have "w' = Dispatch (if NS_IsMainThread w then PromiseResolverTask q v st
                      else WorkerPromiseResolverTask q v st) w" and "cs = []"
      using assms by (simp_all add: RunResolveTask_def)
    then show ?thesis by simp
  next
    case SyncTask
    then have s: "RunTask_swap q ?w1 = (w', cs)"
      using assms by (simp add: RunResolveTask_def)
    show ?thesis
      using RunTask_swap_forward(1) [OF s] RunTask_swap_forward(2) [OF s, of p]
        RunTask_swap_forward(3) [OF s] r
      by simp
  qed
  then show "registered w' \<union> fst ` set cs \<subseteq> registered w"
    and "q \<noteq> p \<Longrightarrow> core (heap w' ! p) = core (heap w ! p)"
    and "length (heap w') = length (heap w)" by simp_all
qed

lemma RejectInternal_forward:
  assumes "RejectInternal q v a w = (w', cs)"
  shows "registered w' \<union> fst ` set cs \<subseteq> registered w"
    and "q \<noteq> p \<Longrightarrow> core (heap w' ! p) = core (heap w ! p)"
    and "length (heap w') = length (heap w)"
proof -
  let ?w1 = "modify q (\<lambda>x. x\<lparr> mResolvePending := True \<rparr>) w"
  have r: "registered ?w1 = registered w"
    by (simp add: registered_modify_same)
  note f = RunResolveTask_forward [OF assms [unfolded RejectInternal_def]]
  show "registered w' \<union> fst ` set cs \<subseteq> registered w" using f(1) r by simp
  show "length (heap w') = length (heap w)" using f(3) by simp
  show "core (heap w' ! p) = core (heap w ! p)" if "q \<noteq> p" using f(2) [OF that] that by simp
qed

lemma ResolveInternal_forward:
  assumes "ResolveInternal q v a w = (w', cs)"
  shows "registered w' \<union> fst ` set cs
           \<subseteq> registered w \<union> {ResolvePromiseCallback q, RejectPromiseCallback q}"
    and "q \<noteq> p \<Longrightarrow> core (heap w' ! p) = core (heap w ! p)"
    and "length (heap w') = length (heap w)"
proof -
  let ?w1 = "modify q (\<lambda>x. x\<lparr> mResolvePending := True \<rparr>) w"
  have r: "registered ?w1 = registered w"
    by (simp add: registered_modify_same)
  consider (plain) u where "RunResolveTask q u Resolved a ?w1 = (w', cs)"
    | (chain) n where "w' = AppendCallbacks n (Some (ResolvePromiseCallback q))
                              (Some (RejectPromiseCallback q)) ?w1" "cs = []"
    using assms by (auto simp: ResolveInternal_def Let_def split: option.splits if_splits)
  then have "(registered w' \<union> fst ` set cs
           \<subseteq> registered w \<union> {ResolvePromiseCallback q, RejectPromiseCallback q})
     \<and> (q \<noteq> p \<longrightarrow> core (heap w' ! p) = core (heap w ! p))
     \<and> length (heap w') = length (heap w)"
  proof cases
    case plain
    from RunResolveTask_forward(1) [OF plain] RunResolveTask_forward(2) [OF plain, of p]
      RunResolveTask_forward(3) [OF plain] r show ?thesis by auto
  next
    case chain
    then show ?thesis
      using registered_AppendCallbacks [of n "Some (ResolvePromiseCallback q)"
          "Some (RejectPromiseCallback q)" ?w1] r
      by auto
  qed
  then show "registered w' \<union> fst ` set cs
           \<subseteq> registered w \<union> {ResolvePromiseCallback q, RejectPromiseCallback q}"
    and "q \<noteq> p \<Longrightarrow> core (heap w' ! p) = core (heap w ! p)"
    and "length (heap w') = length (heap w)" by auto
qed

lemma heap_calls [simp]: "heap (w\<lparr> calls := c \<rparr>) = heap w"
  by simp

lemma Call_forward:
  assumes "Call cb v w = (w', cs)"
  shows "registered w' \<union> fst ` set cs
           \<subseteq> registered w \<union> {ResolvePromiseCallback (mNextPromise cb),
                                  RejectPromiseCallback (mNextPromise cb)}"
    and "mNextPromise cb \<noteq> p \<Longrightarrow> core (heap w' ! p) = core (heap w ! p)"
    and "length (heap w') = length (heap w)"
proof -
  let ?w1 = "w\<lparr> calls := calls w @ [(cb, v)] \<rparr>"
  let ?q = "mNextPromise cb"
  consider (res) u where "ResolveInternal ?q (Some u) SyncTask ?w1 = (w', cs)"
    | (rej) u where "RejectInternal ?q (Some u) SyncTask ?w1 = (w', cs)"
    using assms
    by (cases cb) (auto simp: Call_def Let_def split: outcome.splits Task.splits)
  then have "(registered w' \<union> fst ` set cs
           \<subseteq> registered w \<union> {ResolvePromiseCallback ?q, RejectPromiseCallback ?q})
     \<and> (?q \<noteq> p \<longrightarrow> core (heap w' ! p) = core (heap w ! p))
     \<and> length (heap w') = length (heap w)"
  proof cases
    case res
    from ResolveInternal_forward(1) [OF res] ResolveInternal_forward(2) [OF res, of p]
      ResolveInternal_forward(3) [OF res] show ?thesis by auto
  next
    case rej
    from RejectInternal_forward(1) [OF rej] RejectInternal_forward(2) [OF rej, of p]
      RejectInternal_forward(3) [OF rej] show ?thesis by auto
  qed
  then show "registered w' \<union> fst ` set cs
           \<subseteq> registered w \<union> {ResolvePromiseCallback (mNextPromise cb),
                                  RejectPromiseCallback (mNextPromise cb)}"
    and "mNextPromise cb \<noteq> p \<Longrightarrow> core (heap w' ! p) = core (heap w ! p)"
    and "length (heap w') = length (heap w)" by auto
qed

lemma length_drain [simp]: "length (heap (drain w cs)) = length (heap w)"
  by (rule drain_keeps [where P = "\<lambda>x. length (heap x) = length (heap w)"])
     (metis Call_forward(3) prod.collapse, simp)

text \<open>
  A promise that no registered callback and no waiting call forwards into keeps its
  state, its result and \<open>mResolvePending\<close> through the calls.
\<close>

lemma drain_untouched:
  assumes "p \<notin> forwarded_into w cs"
  shows "core (heap (drain w cs) ! p) = core (heap w ! p)"
    and "p \<notin> forwarded_into (drain w cs) []"
proof -
  let ?Q = "\<lambda>x xs. p \<notin> forwarded_into x xs \<and> core (heap x ! p) = core (heap w ! p)"
  have "?Q (drain w cs) []"
  proof (rule drain_keeps_pending [where Q = ?Q])
    show "?Q w cs" using assms by simp
  next
    fix x cb v rest
    assume q: "?Q x ((cb, v) # rest)"
    obtain x' nested where c: "Call cb v x = (x', nested)" by (cases "Call cb v x")
    have n: "mNextPromise cb \<noteq> p" using q by (auto simp: forwarded_into_def)
    from Call_forward(1) [OF c] q n have "p \<notin> forwarded_into x' (nested @ rest)"
      by (auto simp: forwarded_into_def)
    moreover from Call_forward(2) [OF c n] q have "core (heap x' ! p) = core (heap w ! p)"
      by simp
    ultimately show "?Q (fst (Call cb v x)) (snd (Call cb v x) @ rest)"
      using c by simp
  qed
  then show "core (heap (drain w cs) ! p) = core (heap w ! p)"
    and "p \<notin> forwarded_into (drain w cs) []" by simp_all
qed

lemma exec_Nil [simp]: "exec (w, []) = w"
  by (simp add: exec_def)

lemma new_object_simps [simp]:
  "fst (new_object w) = length (heap w)"
  "heap (snd (new_object w)) = heap w @ [new_Promise]"
  "eventQueue (snd (new_object w)) = eventQueue w"
  "NS_IsMainThread (snd (new_object w)) = NS_IsMainThread w"
  by (simp_all add: new_object_def)

lemma core_new_Promise [simp]: "core new_Promise = (Pending, UndefinedValue, False)"
  by (simp add: core_def new_Promise_def)

lemma core_pending: "core (x\<lparr> mResolvePending := True \<rparr>) = (mState x, mResult x, True)"
  by (simp add: core_def)

text \<open>An asynchronous settlement only marks the promise and queues the resolver task.\<close>

lemma RejectInternal_async:
  "RejectInternal p aValue AsyncTask w =
     (Dispatch (if NS_IsMainThread w
                then PromiseResolverTask p (case aValue of Some v \<Rightarrow> v | None \<Rightarrow> UndefinedValue) Rejected
                else WorkerPromiseResolverTask p (case aValue of Some v \<Rightarrow> v | None \<Rightarrow> UndefinedValue) Rejected)
        (modify p (\<lambda>x. x\<lparr> mResolvePending := True \<rparr>) w), [])"
  by (simp add: RejectInternal_def RunResolveTask_def)

lemma ResolveInternal_core_self:
  assumes "p < length (heap w)" "ResolveInternal p aValue AsyncTask w = (w', cs)"
  shows "core (heap w' ! p) = (mState (heap w ! p), mResult (heap w ! p), True)" and "cs = []"
proof -
  let ?w1 = "modify p (\<lambda>x. x\<lparr> mResolvePending := True \<rparr>) w"
  have c: "core (heap ?w1 ! p) = (mState (heap w ! p), mResult (heap w ! p), True)"
    using assms(1) by (simp add: core_pending)
  consider (plain) u where "w' = Dispatch (if NS_IsMainThread w then PromiseResolverTask p u Resolved
                      else WorkerPromiseResolverTask p u Resolved) ?w1" "cs = []"
    | (chain) n where "w' = AppendCallbacks n (Some (ResolvePromiseCallback p))
                              (Some (RejectPromiseCallback p)) ?w1" "cs = []"
    using assms(2)
    by (auto simp: ResolveInternal_def RunResolveTask_def Let_def split: option.splits if_splits)
  then have "core (heap w' ! p) = (mState (heap w ! p), mResult (heap w ! p), True) \<and> cs = []"
  proof cases
    case plain
    then show ?thesis using c by simp
  next
    case chain
    then show ?thesis using c by simp
  qed
  then show "core (heap w' ! p) = (mState (heap w ! p), mResult (heap w ! p), True)" and "cs = []"
    by simp_all
qed

lemma RunResolveTask_settles:
  assumes "p < length (heap w)" and "p \<notin> forwarded_into w []"
  shows "core (heap (exec (RunResolveTask p v st SyncTask w)) ! p)
           = (st, v, mResolvePending (heap w ! p))"
proof -
  let ?w1 = "modify p (\<lambda>x. x\<lparr> mResult := v, mState := st \<rparr>) w"
  obtain w' cs where s: "RunTask_swap p ?w1 = (w', cs)" by (cases "RunTask_swap p ?w1")
  have r: "registered ?w1 = registered w" by (simp add: registered_modify_same)
  have "p \<notin> forwarded_into w' cs"
    using RunTask_swap_forward(1) [OF s] r assms(2) by (auto simp: forwarded_into_def)
  from drain_untouched(1) [OF this] RunTask_swap_forward(2) [OF s, of p] assms(1)
  have "core (heap (drain w' cs) ! p) = (st, v, mResolvePending (heap w ! p))"
    by (simp add: core_def)
  then show ?thesis
    using s by (simp add: RunResolveTask_def exec_def)
qed

subsection \<open>Example worlds\<close>

text \<open>A main thread with no promise yet, whose user continuations return their argument.\<close>

definition initial :: world where
  "initial = \<lparr> heap = [], eventQueue = [], NS_IsMainThread = True, IsChromeWorker = False,
     reporters = [], calls = [], functionObjects = [], AnyCallback = (\<lambda>f v. Returns v) \<rparr>"

subsection \<open>Rejection and the static factories\<close>

text \<open>
  Claim C4. Rejecting a promise with any value \<open>v\<close>, a promise object included, queues a
  resolver task that carries \<open>v\<close> itself and registers nothing on \<open>v\<close>; when that task
  runs, in any world where no callback forwards into the promise, the promise is
  \<open>Rejected\<close> with result \<open>v\<close>.
\<close>

theorem reject_never_unwraps:
  assumes "p < length (heap w)" and "\<not> mResolvePending (heap w ! p)"
  shows "MaybeReject p (Some v) w =
           Dispatch (if NS_IsMainThread w then PromiseResolverTask p v Rejected
                     else WorkerPromiseResolverTask p v Rejected)
             (modify p (\<lambda>x. x\<lparr> mResolvePending := True \<rparr>) w)
         \<and> (\<forall>w2. p < length (heap w2) \<and> p \<notin> forwarded_into w2 [] \<longrightarrow>
               mState (heap (Run (PromiseResolverTask p v Rejected) w2) ! p) = Rejected
             \<and> mResult (heap (Run (PromiseResolverTask p v Rejected) w2) ! p) = v
             \<and> mState (heap (Run (WorkerPromiseResolverTask p v Rejected) w2) ! p) = Rejected
             \<and> mResult (heap (Run (WorkerPromiseResolverTask p v Rejected) w2) ! p) = v)"
proof -
  have "MaybeReject p (Some v) w =
           Dispatch (if NS_IsMainThread w then PromiseResolverTask p v Rejected
                     else WorkerPromiseResolverTask p v Rejected)
             (modify p (\<lambda>x. x\<lparr> mResolvePending := True \<rparr>) w)"
    using assms(2) by (simp add: MaybeReject_def MaybeRejectInternal_def RejectInternal_async)
  moreover have "mState (heap (exec (RunResolveTask p v Rejected SyncTask w2)) ! p) = Rejected
      \<and> mResult (heap (exec (RunResolveTask p v Rejected SyncTask w2)) ! p) = v"
    if "p < length (heap w2)" "p \<notin> forwarded_into w2 []" for w2
    using RunResolveTask_settles [OF that, of v Rejected] by (simp add: core_def)
  ultimately show ?thesis by simp
qed

text \<open>After \<open>Promise.resolve(5)\<close> and one more \<open>new Promise\<close>: promise 0 waits for its
  resolver task, promise 1 is untouched.\<close>

definition two_promises :: world where
  "two_promises = snd (new_object (snd (Promise_Resolve True (NumberValue 5) initial)))"

theorem reject_never_unwraps_witness:
  "1 < length (heap two_promises) \<and> \<not> mResolvePending (heap two_promises ! 1)
   \<and> 1 < length (heap (MaybeReject 1 (Some (PromiseObject 0)) two_promises))
   \<and> 1 \<notin> forwarded_into (MaybeReject 1 (Some (PromiseObject 0)) two_promises) []
   \<and> mState (heap (Run (PromiseResolverTask 1 (PromiseObject 0) Rejected)
                 (MaybeReject 1 (Some (PromiseObject 0)) two_promises)) ! 1) = Rejected
   \<and> mResult (heap (Run (PromiseResolverTask 1 (PromiseObject 0) Rejected)
                 (MaybeReject 1 (Some (PromiseObject 0)) two_promises)) ! 1) = PromiseObject 0"
proof -
  let ?w2 = "MaybeReject 1 (Some (PromiseObject 0)) two_promises"
  have h1: "1 < length (heap two_promises)" by code_simp
  have h2: "\<not> mResolvePending (heap two_promises ! 1)" by code_simp
  have h3: "1 < length (heap ?w2) \<and> 1 \<notin> forwarded_into ?w2 []" by code_simp
  from reject_never_unwraps [OF h1 h2, of "PromiseObject 0"] h3
  have "mState (heap (Run (PromiseResolverTask 1 (PromiseObject 0) Rejected) ?w2) ! 1) = Rejected
      \<and> mResult (heap (Run (PromiseResolverTask 1 (PromiseObject 0) Rejected) ?w2) ! 1) = PromiseObject 0"
    by blast
  with h1 h2 h3 show ?thesis by blast
qed

text \<open>
  Claim C10. When \<open>Promise::Resolve\<close> or \<open>Promise::Reject\<close> returns a promise, that promise
  is the new object, it is still \<open>Pending\<close> with an undefined result, \<open>mResolvePending\<close> is
  already set, and a further \<open>MaybeResolve\<close> or \<open>MaybeReject\<close> changes nothing.
\<close>

theorem factories_leave_pending:
  assumes "Promise_Resolve aWindow aValue w = (Inr p, w')
         \<or> Promise_Reject aWindow aValue w = (Inr p, w')"
  shows "p = length (heap w) \<and> length (heap w') = Suc (length (heap w))
       \<and> mState (heap w' ! p) = Pending \<and> mResult (heap w' ! p) = UndefinedValue
       \<and> mResolvePending (heap w' ! p)
       \<and> MaybeResolve p v1 w' = w' \<and> MaybeReject p v2 w' = w'"
proof -
  let ?w1 = "w\<lparr> heap := heap w @ [new_Promise] \<rparr>"
  have p: "length (heap w) < length (heap ?w1)" by simp
  have n: "heap ?w1 ! length (heap w) = new_Promise" by simp
  have "p = length (heap w) \<and> length (heap w') = Suc (length (heap w))
      \<and> core (heap w' ! p) = (Pending, UndefinedValue, True)"
    using assms
  proof
    assume "Promise_Resolve aWindow aValue w = (Inr p, w')"
    then have e: "p = length (heap w)"
      and w': "w' = exec (ResolveInternal p (Some aValue) AsyncTask ?w1)"
      by (auto simp: Promise_Resolve_def MaybeResolveInternal_def new_Promise_def new_object_def
          split: if_splits)
    obtain x cs where r: "ResolveInternal p (Some aValue) AsyncTask ?w1 = (x, cs)"
      by (cases "ResolveInternal p (Some aValue) AsyncTask ?w1")
    from ResolveInternal_core_self [OF _ r] ResolveInternal_forward(3) [OF r] p n e w' r
    show ?thesis by (simp add: new_Promise_def)
  next
    assume "Promise_Reject aWindow aValue w = (Inr p, w')"
    then have e: "p = length (heap w)"
      and w': "w' = exec (RejectInternal p (Some aValue) AsyncTask ?w1)"
      by (auto simp: Promise_Reject_def MaybeRejectInternal_def new_Promise_def new_object_def
          split: if_splits)
    show ?thesis
      using e w' by (simp add: RejectInternal_async core_def new_Promise_def)
  qed
  then show ?thesis
    by (auto simp: core_def MaybeResolve_def MaybeReject_def MaybeResolveInternal_def
        MaybeRejectInternal_def)
qed

theorem factories_leave_pending_witness:
  "Promise_Resolve True (PromiseObject 0) two_promises
     = (Inr 2, snd (Promise_Resolve True (PromiseObject 0) two_promises))
   \<and> mState (heap (snd (Promise_Resolve True (PromiseObject 0) two_promises)) ! 2) = Pending
   \<and> mResolvePending (heap (snd (Promise_Resolve True (PromiseObject 0) two_promises)) ! 2)
   \<and> MaybeReject 2 (Some (NumberValue 7)) (snd (Promise_Resolve True (PromiseObject 0) two_promises))
       = snd (Promise_Resolve True (PromiseObject 0) two_promises)"
proof -
  have "fst (Promise_Resolve True (PromiseObject 0) two_promises) = Inr 2"
    by code_simp
  then have h: "Promise_Resolve True (PromiseObject 0) two_promises
     = (Inr 2, snd (Promise_Resolve True (PromiseObject 0) two_promises))"
    by (metis prod.collapse)
  from factories_leave_pending [OF disjI1 [OF h], of _ "Some (NumberValue 7)"] h
  show ?thesis by simp
qed

subsection \<open>What no operation undoes\<close>

text \<open>
  A relation between the old and the new fields of a promise object that every
  assignment to a field respects.
\<close>

definition respected :: "(promise \<Rightarrow> promise \<Rightarrow> bool) \<Rightarrow> bool" where
  "respected R \<longleftrightarrow>
     (\<forall>x. R x x) \<and> (\<forall>x y z. R x y \<longrightarrow> R y z \<longrightarrow> R x z)
   \<and> (\<forall>x a. R x (x\<lparr> mResolveCallbacks := a \<rparr>))
   \<and> (\<forall>x a. R x (x\<lparr> mRejectCallbacks := a \<rparr>))
   \<and> (\<forall>x b. R x (x\<lparr> mTaskPending := b \<rparr>))
   \<and> (\<forall>x. R x (x\<lparr> mHadRejectCallback := True \<rparr>))
   \<and> (\<forall>x. R x (x\<lparr> mResolvePending := True \<rparr>))
   \<and> (\<forall>x v. R x (x\<lparr> mResult := v \<rparr>))
   \<and> (\<forall>x st. R x (x\<lparr> mState := st \<rparr>))"

definition keeps :: "(promise \<Rightarrow> promise \<Rightarrow> bool) \<Rightarrow> world \<Rightarrow> world \<Rightarrow> bool" where
  "keeps R w w' \<longleftrightarrow>
     length (heap w) \<le> length (heap w') \<and> (\<forall>p < length (heap w). R (heap w ! p) (heap w' ! p))"

lemma keeps_refl: "respected R \<Longrightarrow> heap w' = heap w \<Longrightarrow> keeps R w w'"
  by (simp add: keeps_def respected_def)

lemma keeps_trans: "respected R \<Longrightarrow> keeps R w w' \<Longrightarrow> keeps R w' w'' \<Longrightarrow> keeps R w w''"
  unfolding keeps_def respected_def
  by (metis (no_types, lifting) order.strict_trans2 order_trans)

lemma keeps_modify:
  assumes "respected R" and "\<And>x. R x (f x)"
  shows "keeps R w (modify p f w)"
proof -
  have "R (heap w ! q) ((heap w)[p := f (heap w ! p)] ! q)" if "q < length (heap w)" for q
    using assms that by (cases "q = p") (simp_all add: respected_def)
  then show ?thesis by (simp add: keeps_def modify_def)
qed

lemma respected_two:
  "respected R \<Longrightarrow> R x (x\<lparr> mResolveCallbacks := a, mRejectCallbacks := b \<rparr>)"
  "respected R \<Longrightarrow> R x (x\<lparr> mHadRejectCallback := True, mRejectCallbacks := b \<rparr>)"
  "respected R \<Longrightarrow> R x (x\<lparr> mResult := v, mState := st \<rparr>)"
  "respected R \<Longrightarrow> R x (x\<lparr> mResolveCallbacks := a, mRejectCallbacks := b, mResult := v \<rparr>)"
  unfolding respected_def by metis+

lemma respected_one:
  "respected R \<Longrightarrow> R x (x\<lparr> mResolveCallbacks := a \<rparr>)"
  "respected R \<Longrightarrow> R x (x\<lparr> mRejectCallbacks := a \<rparr>)"
  "respected R \<Longrightarrow> R x (x\<lparr> mTaskPending := b \<rparr>)"
  "respected R \<Longrightarrow> R x (x\<lparr> mHadRejectCallback := True \<rparr>)"
  "respected R \<Longrightarrow> R x (x\<lparr> mResolvePending := True \<rparr>)"
  "respected R \<Longrightarrow> R x (x\<lparr> mResult := v \<rparr>)"
  "respected R \<Longrightarrow> R x (x\<lparr> mState := st \<rparr>)"
  unfolding respected_def by blast+

lemma keeps_AppendCallbacks:
  assumes "respected R" shows "keeps R w (AppendCallbacks p a b w)"
proof -
  note m = keeps_modify [OF assms] and t = keeps_trans [OF assms] and r = keeps_refl [OF assms]
  let ?w1 = "case a of None \<Rightarrow> w
     | Some cb \<Rightarrow> modify p (\<lambda>x. x\<lparr> mResolveCallbacks := mResolveCallbacks x @ [cb] \<rparr>) w"
  let ?w2 = "case b of None \<Rightarrow> ?w1
     | Some cb \<Rightarrow> modify p (\<lambda>x. x\<lparr> mHadRejectCallback := True,
                            mRejectCallbacks := mRejectCallbacks x @ [cb] \<rparr>) ?w1"
  have 1: "keeps R w ?w1"
    by (cases a) (simp_all add: r m respected_one [OF assms])
  have 2: "keeps R ?w1 ?w2"
    by (cases b) (simp_all add: r m respected_two [OF assms])
  have 3: "keeps R ?w2 (modify p (\<lambda>x. x\<lparr> mTaskPending := True \<rparr>) (Dispatch d ?w2))" for d
    by (rule t [OF r m]) (simp_all add: respected_one [OF assms])
  have "keeps R ?w2 (AppendCallbacks p a b w)"
    using 3 r [of ?w2 ?w2] by (simp add: AppendCallbacks_def Let_def)
  with 1 2 show ?thesis by (blast intro: t)
qed

lemma keeps_RunTask_swap:
  assumes "respected R" shows "keeps R w (fst (RunTask_swap p w))"
  by (simp add: RunTask_swap_def Let_def keeps_refl [OF assms] keeps_modify [OF assms]
      respected_two [OF assms])

lemma keeps_RunResolveTask:
  assumes "respected R" shows "keeps R w (fst (RunResolveTask p v st a w))"
proof (cases a)
  case AsyncTask
  then show ?thesis by (simp add: RunResolveTask_def keeps_refl [OF assms])
next
  case SyncTask
  have "keeps R w (modify p (\<lambda>x. x\<lparr> mResult := v, mState := st \<rparr>) w)"
    by (simp add: keeps_modify [OF assms] respected_two [OF assms])
  from keeps_trans [OF assms this keeps_RunTask_swap [OF assms]] SyncTask
  show ?thesis by (simp add: RunResolveTask_def)
qed

lemma keeps_pending:
  assumes "respected R"
  shows "keeps R w (modify p (\<lambda>x. x\<lparr> mResolvePending := True \<rparr>) w)"
  by (simp add: keeps_modify [OF assms] respected_one [OF assms])

lemma keeps_RejectInternal:
  assumes "respected R" shows "keeps R w (fst (RejectInternal p v a w))"
  unfolding RejectInternal_def
  by (rule keeps_trans [OF assms keeps_pending [OF assms] keeps_RunResolveTask [OF assms]])

lemma keeps_ResolveInternal:
  assumes "respected R" shows "keeps R w (fst (ResolveInternal p v a w))"
proof -
  let ?w1 = "modify p (\<lambda>x. x\<lparr> mResolvePending := True \<rparr>) w"
  have "keeps R ?w1 (fst (ResolveInternal p v a w))"
    by (simp add: ResolveInternal_def Let_def keeps_RunResolveTask [OF assms]
        keeps_AppendCallbacks [OF assms] split: option.splits)
  from keeps_trans [OF assms keeps_pending [OF assms] this] show ?thesis .
qed

lemma keeps_Call:
  assumes "respected R" shows "keeps R w (fst (Call cb v w))"
proof -
  let ?w1 = "w\<lparr> calls := calls w @ [(cb, v)] \<rparr>"
  have 1: "keeps R w ?w1" by (simp add: keeps_refl [OF assms])
  have "keeps R ?w1 (fst (Call cb v w))"
    by (simp add: Call_def Let_def keeps_ResolveInternal [OF assms] keeps_RejectInternal [OF assms]
        split: PromiseCallback.splits outcome.splits Task.splits)
  from keeps_trans [OF assms 1 this] show ?thesis .
qed

lemma keeps_drain:
  assumes "respected R" shows "keeps R w (drain w cs)"
  by (rule drain_keeps [where P = "keeps R w"])
     (blast intro: keeps_trans [OF assms] keeps_Call [OF assms], simp add: keeps_refl [OF assms])

lemma keeps_exec:
  assumes "respected R" and "keeps R w (fst a)" shows "keeps R w (exec a)"
  unfolding exec_def by (rule keeps_trans [OF assms(1) assms(2) keeps_drain [OF assms(1)]])

lemma keeps_RunTask:
  assumes "respected R" shows "keeps R w (RunTask p w)"
  unfolding RunTask_def by (rule keeps_exec [OF assms keeps_RunTask_swap [OF assms]])

lemma keeps_MaybeResolveInternal:
  assumes "respected R" shows "keeps R w (MaybeResolveInternal p v a w)"
  by (simp add: MaybeResolveInternal_def keeps_refl [OF assms]
      keeps_exec [OF assms keeps_ResolveInternal [OF assms]])

lemma keeps_MaybeRejectInternal:
  assumes "respected R" shows "keeps R w (MaybeRejectInternal p v a w)"
  by (simp add: MaybeRejectInternal_def keeps_refl [OF assms]
      keeps_exec [OF assms keeps_RejectInternal [OF assms]])

lemma keeps_JSCallback:
  assumes "respected R" shows "keeps R w (JSCallback p t v w)"
  by (simp add: JSCallback_def keeps_MaybeResolveInternal [OF assms]
      keeps_MaybeRejectInternal [OF assms])

lemma keeps_Run:
  assumes "respected R" shows "keeps R w (Run r w)"
proof -
  have "keeps R w (RunTask p (modify p (\<lambda>x. x\<lparr> mTaskPending := False \<rparr>) w))" for p
    by (rule keeps_trans [OF assms keeps_modify [OF assms] keeps_RunTask [OF assms]])
       (simp add: respected_one [OF assms])
  then show ?thesis
    by (cases r) (simp_all add: keeps_exec [OF assms keeps_RunResolveTask [OF assms]])
qed

lemma keeps_ProcessNextEvent:
  assumes "respected R" shows "keeps R w (ProcessNextEvent w)"
proof (cases "eventQueue w")
  case Nil
  then show ?thesis by (simp add: ProcessNextEvent_def keeps_refl [OF assms])
next
  case (Cons r rest)
  have "keeps R w (w\<lparr> eventQueue := rest \<rparr>)" by (simp add: keeps_refl [OF assms])
  from keeps_trans [OF assms this keeps_Run [OF assms]] Cons
  show ?thesis by (simp add: ProcessNextEvent_def)
qed

lemma keeps_ProcessEvents:
  assumes "respected R" shows "keeps R w (ProcessEvents n w)"
proof (induction n arbitrary: w)
  case 0
  show ?case by (simp add: keeps_refl [OF assms])
next
  case (Suc n)
  show ?case
    using keeps_trans [OF assms keeps_ProcessNextEvent [OF assms] Suc] by simp
qed

lemma keeps_new_object:
  assumes "respected R" shows "keeps R w (snd (new_object w))"
  using assms by (simp add: keeps_def new_object_def nth_append respected_def)

lemma keeps_Then:
  assumes "respected R" shows "keeps R w (snd (Then p f g w))"
  using keeps_trans [OF assms keeps_new_object [OF assms] keeps_AppendCallbacks [OF assms]]
  by (simp add: Then_def split: prod.splits) (metis snd_conv)

lemma keeps_fold_JSCallback:
  assumes "respected R"
  shows "keeps R w (fold (\<lambda>c. JSCallback p (fst c) (snd c)) cs w)"
proof (induction cs arbitrary: w)
  case Nil
  show ?case by (simp add: keeps_refl [OF assms])
next
  case (Cons c cs)
  show ?case
    using keeps_trans [OF assms keeps_JSCallback [OF assms] Cons] by simp
qed

lemma keeps_CreateFunction:
  assumes "respected R" shows "keeps R w (snd (CreateFunction func p t w))"
  by (simp add: CreateFunction_def keeps_refl [OF assms])

lemma keeps_Constructor:
  assumes "respected R" shows "keeps R w (snd (Constructor aWindow rf jf aInit w))"
proof -
  note t = keeps_trans [OF assms]
  let ?p = "fst (new_object w)"
  let ?w1 = "snd (new_object w)"
  let ?w2 = "snd (CreateFunction rf ?p TaskResolve ?w1)"
  let ?w3 = "snd (CreateFunction jf ?p TaskReject ?w2)"
  let ?w4 = "fold (\<lambda>c. JSCallback ?p (fst c) (snd c)) (capability_calls aInit) ?w3"
  have 1: "keeps R w ?w1" by (rule keeps_new_object [OF assms])
  have 2: "keeps R w ?w2" by (rule t [OF 1 keeps_CreateFunction [OF assms]])
  have 3: "keeps R w ?w3" by (rule t [OF 2 keeps_CreateFunction [OF assms]])
  have 4: "keeps R w ?w4" by (rule t [OF 3 keeps_fold_JSCallback [OF assms]])
  have 5: "keeps R w (MaybeRejectInternal ?p e AsyncTask ?w4)" for e
    by (rule t [OF 4 keeps_MaybeRejectInternal [OF assms]])
  show ?thesis
    using 1 2 3 4 5
    by (simp add: Constructor_def Let_def case_prod_beta keeps_refl [OF assms]
        split: option.splits)
qed

lemma keeps_Promise_Resolve:
  assumes "respected R" shows "keeps R w (snd (Promise_Resolve aWindow v w))"
  using keeps_trans [OF assms keeps_new_object [OF assms] keeps_MaybeResolveInternal [OF assms]]
  by (simp add: Promise_Resolve_def keeps_refl [OF assms] split: prod.splits) (metis snd_conv)

lemma keeps_Promise_Reject:
  assumes "respected R" shows "keeps R w (snd (Promise_Reject aWindow v w))"
  using keeps_trans [OF assms keeps_new_object [OF assms] keeps_MaybeRejectInternal [OF assms]]
  by (simp add: Promise_Reject_def keeps_refl [OF assms] split: prod.splits) (metis snd_conv)

lemma heap_MaybeReportRejected [simp]: "heap (MaybeReportRejected p w) = heap w"
  by (simp add: MaybeReportRejected_def Let_def split: option.splits)

lemma keeps_Unlink:
  assumes "respected R" shows "keeps R w (Unlink p w)"
  unfolding Unlink_def
  by (rule keeps_trans [OF assms keeps_refl [OF assms] keeps_modify [OF assms]])
     (simp_all add: respected_two [OF assms])

lemma keeps_destructor:
  assumes "respected R" shows "keeps R w (destructor p w)"
  unfolding destructor_def
  by (rule keeps_trans [OF assms keeps_refl [OF assms] keeps_modify [OF assms]])
     (simp_all add: respected_one [OF assms])

text \<open>
  What can happen next on the thread. Script can construct a promise, call the static
  factories, call \<open>then\<close> and \<open>catch\<close> on a promise object, and call a function that
  \<open>CreateFunction\<close> made; the thread runs the next event; a promise object is unlinked or
  destroyed. With \<open>native\<close>, C++ code may also call \<open>MaybeResolve\<close> and \<open>MaybeReject\<close> on
  any promise object.
\<close>

inductive step :: "bool \<Rightarrow> world \<Rightarrow> world \<Rightarrow> bool" for native :: bool where
  construct: "step native w (snd (Constructor aWindow resolveFunc rejectFunc aInit w))"
| resolve: "step native w (snd (Promise_Resolve aWindow v w))"
| reject: "step native w (snd (Promise_Reject aWindow v w))"
| then_catch: "p < length (heap w) \<Longrightarrow> step native w (snd (Then p f g w))"
| function_call: "(p, t) \<in> set (functionObjects w) \<Longrightarrow> p < length (heap w)
                  \<Longrightarrow> step native w (JSCallback p t v w)"
| maybe_resolve: "native \<Longrightarrow> p < length (heap w) \<Longrightarrow> step native w (MaybeResolve p v w)"
| maybe_reject: "native \<Longrightarrow> p < length (heap w) \<Longrightarrow> step native w (MaybeReject p v w)"
| event: "step native w (ProcessNextEvent w)"
| unlink: "p < length (heap w) \<Longrightarrow> step native w (Unlink p w)"
| destroy: "p < length (heap w) \<Longrightarrow> step native w (destructor p w)"

lemma keeps_step:
  assumes "respected R" and "step native w w'" shows "keeps R w w'"
  using assms(2)
  by (cases rule: step.cases)
     (simp_all add: keeps_Constructor [OF assms(1)] keeps_Promise_Resolve [OF assms(1)]
        keeps_Promise_Reject [OF assms(1)] keeps_Then [OF assms(1)] keeps_JSCallback [OF assms(1)]
        keeps_MaybeResolveInternal [OF assms(1)] keeps_MaybeRejectInternal [OF assms(1)]
        keeps_ProcessNextEvent [OF assms(1)] keeps_Unlink [OF assms(1)]
        keeps_destructor [OF assms(1)] MaybeResolve_def MaybeReject_def)

lemma keeps_steps:
  assumes "respected R" and "(step native)\<^sup>*\<^sup>* w w'" shows "keeps R w w'"
  using assms(2)
proof (induction rule: rtranclp_induct)
  case base
  show ?case by (simp add: keeps_refl [OF assms(1)])
next
  case (step y z)
  from keeps_trans [OF assms(1) step.IH keeps_step [OF assms(1) step.hyps(2)]] show ?case .
qed

subsection \<open>Unhandled rejections\<close>

definition observed_stays :: "promise \<Rightarrow> promise \<Rightarrow> bool" where
  "observed_stays x y \<longleftrightarrow> (mHadRejectCallback x \<longrightarrow> mHadRejectCallback y)"

lemma respected_observed_stays: "respected observed_stays"
  by (simp add: respected_def observed_stays_def)

lemma observed_later:
  assumes "(step native)\<^sup>*\<^sup>* w w'" and "p < length (heap w)" and "mHadRejectCallback (heap w ! p)"
  shows "p < length (heap w') \<and> mHadRejectCallback (heap w' ! p)"
  using keeps_steps [OF respected_observed_stays assms(1)] assms(2,3)
  by (auto simp: keeps_def observed_stays_def)

lemma reporters_modify_MaybeReportRejected [simp]:
  "reporters (destructor p w) = reporters (MaybeReportRejected p w)"
  "reporters (Unlink p w) = reporters (MaybeReportRejected p w)"
  by (simp_all add: destructor_def Unlink_def)

lemma observed_no_report:
  "mHadRejectCallback (heap w ! p) \<Longrightarrow> MaybeReportRejected p w = w"
  by (simp add: MaybeReportRejected_def)

lemma observed_AppendCallbacks:
  "p < length (heap w) \<Longrightarrow> mHadRejectCallback (heap (AppendCallbacks p a (Some cb) w) ! p)"
  by (cases a) (simp_all add: AppendCallbacks_def Let_def)

text \<open>The reporter that \<open>MaybeReportRejected\<close> posts for a promise with an error result.\<close>

definition reporter_of :: "world \<Rightarrow> promise \<Rightarrow> AsyncErrorReporter" where
  "reporter_of w x =
     \<lparr> report = the (ErrorFromException (mResult x)), exn = mResult x,
       isChromeError = (if NS_IsMainThread w then IsSystemPrincipal (mResult x)
                        else IsChromeWorker w) \<rparr>"

lemma reporters_MaybeReportRejected:
  "reporters (MaybeReportRejected p w) = reporters w @
     (if mState (heap w ! p) = Rejected \<and> \<not> mHadRejectCallback (heap w ! p)
         \<and> ErrorFromException (mResult (heap w ! p)) \<noteq> None
      then [reporter_of w (heap w ! p)] else [])"
  by (cases "mResult (heap w ! p)")
     (auto simp: MaybeReportRejected_def Let_def reporter_of_def)

lemma Unlink_then_destructor:
  "p < length (heap w) \<Longrightarrow> MaybeReportRejected p (Unlink p w) = Unlink p w"
  by (simp add: Unlink_def MaybeReportRejected_def [of p "modify _ _ _"])

text \<open>One promise, made by \<open>Promise.reject(v)\<close>, after its resolver task has run.\<close>

definition rejected_with :: "jsval \<Rightarrow> world" where
  "rejected_with v = ProcessNextEvent (snd (Promise_Reject True v initial))"

text \<open>
  Claim C2, as amended. Destroying a promise posts an error reporter exactly when the
  promise is \<open>Rejected\<close>, no reject callback was ever appended, and its result is an
  error object; then it posts exactly one, also when the cycle collector unlinked the
  promise first. Once a reject callback has been appended, no later teardown of the
  promise posts a reporter, whatever happened in between.
\<close>

theorem unhandled_rejection_report:
  assumes "p < length (heap w)"
  shows "reporters (destructor p w) = reporters w @
           (if mState (heap w ! p) = Rejected \<and> \<not> mHadRejectCallback (heap w ! p)
               \<and> ErrorFromException (mResult (heap w ! p)) \<noteq> None
            then [reporter_of w (heap w ! p)] else [])
       \<and> reporters (Unlink p w) = reporters (destructor p w)
       \<and> reporters (destructor p (Unlink p w)) = reporters (destructor p w)
       \<and> (\<forall>a cb w'. (step native)\<^sup>*\<^sup>* (AppendCallbacks p a (Some cb) w) w' \<longrightarrow>
             reporters (destructor p w') = reporters w' \<and> reporters (Unlink p w') = reporters w')"
proof -
  have "reporters (MaybeReportRejected p w') = reporters w'"
    if "(step native)\<^sup>*\<^sup>* (AppendCallbacks p a (Some cb) w) w'" for a cb w'
    using observed_later [OF that _ observed_AppendCallbacks [OF assms]] assms
    by (simp add: observed_no_report)
  then show ?thesis
    using assms by (simp add: reporters_MaybeReportRejected [of p w] Unlink_then_destructor)
qed

theorem unhandled_rejection_report_witness:
  "0 < length (heap (rejected_with (ErrorObject 7 False)))
   \<and> reporters (destructor 0 (rejected_with (ErrorObject 7 False)))
       = [\<lparr> report = 7, exn = ErrorObject 7 False, isChromeError = False \<rparr>]
   \<and> reporters (destructor 0 (Unlink 0 (rejected_with (ErrorObject 7 False))))
       = [\<lparr> report = 7, exn = ErrorObject 7 False, isChromeError = False \<rparr>]
   \<and> reporters (destructor 0 (ProcessNextEvent
         (AppendCallbacks 0 None (Some (RejectPromiseCallback 0))
            (rejected_with (ErrorObject 7 False))))) = []"
proof -
  let ?w = "rejected_with (ErrorObject 7 False)"
  let ?w1 = "AppendCallbacks 0 None (Some (RejectPromiseCallback 0)) ?w"
  have h: "0 < length (heap ?w)" by code_simp
  have s: "(step True)\<^sup>*\<^sup>* ?w1 (ProcessNextEvent ?w1)"
    by (rule r_into_rtranclp) (rule step.event)
  have e: "reporters ?w = [] \<and> reporters (ProcessNextEvent ?w1) = []
     \<and> mState (heap ?w ! 0) = Rejected \<and> \<not> mHadRejectCallback (heap ?w ! 0)
     \<and> mResult (heap ?w ! 0) = ErrorObject 7 False \<and> NS_IsMainThread ?w"
    by code_simp
  from unhandled_rejection_report [OF h, of True] s e h show ?thesis
    by (simp add: reporter_of_def)
qed

text \<open>
  Claim C2 as stated fails for a rejection value that is no error object:
  \<open>Promise.reject(5)\<close>, never given a callback, is torn down without any reporter.
\<close>

theorem unhandled_rejection_report_counterexample:
  "mState (heap (rejected_with (NumberValue 5)) ! 0) = Rejected
   \<and> \<not> mHadRejectCallback (heap (rejected_with (NumberValue 5)) ! 0)
   \<and> mResolveCallbacks (heap (rejected_with (NumberValue 5)) ! 0) = []
   \<and> mRejectCallbacks (heap (rejected_with (NumberValue 5)) ! 0) = []
   \<and> reporters (rejected_with (NumberValue 5)) = []
   \<and> reporters (destructor 0 (rejected_with (NumberValue 5))) = []
   \<and> reporters (destructor 0 (Unlink 0 (rejected_with (NumberValue 5)))) = []"
  by code_simp

text \<open>
  Claim C9. Resolving a promise with a promise object \<open>r\<close> appends a reject adapter to
  \<open>r\<close>, which sets \<open>mHadRejectCallback\<close> of \<open>r\<close>; the flag stays set through everything
  that happens later, so no teardown of \<open>r\<close> posts a reporter.
\<close>

theorem chaining_observes_inner_rejection:
  assumes "r < length (heap w)"
  shows "mHadRejectCallback (heap (fst (ResolveInternal p (Some (PromiseObject r)) a w)) ! r)
       \<and> snd (ResolveInternal p (Some (PromiseObject r)) a w) = []
       \<and> (\<forall>w'. (step native)\<^sup>*\<^sup>* (fst (ResolveInternal p (Some (PromiseObject r)) a w)) w' \<longrightarrow>
             mHadRejectCallback (heap w' ! r)
           \<and> reporters (destructor r w') = reporters w'
           \<and> reporters (Unlink r w') = reporters w')"
proof -
  let ?w0 = "modify p (\<lambda>x. x\<lparr> mResolvePending := True \<rparr>) w"
  let ?w1 = "AppendCallbacks r (Some (ResolvePromiseCallback p)) (Some (RejectPromiseCallback p)) ?w0"
  have r0: "r < length (heap ?w0)" using assms by simp
  have e: "ResolveInternal p (Some (PromiseObject r)) a w = (?w1, [])"
    using assms by (simp add: ResolveInternal_def UNWRAP_OBJECT_Promise_def Let_def)
  have o: "mHadRejectCallback (heap ?w1 ! r)" by (rule observed_AppendCallbacks [OF r0])
  have l: "r < length (heap ?w1)" using assms by simp
  have "mHadRejectCallback (heap w' ! r) \<and> reporters (MaybeReportRejected r w') = reporters w'"
    if "(step native)\<^sup>*\<^sup>* ?w1 w'" for w'
    using observed_later [OF that l o] by (simp add: observed_no_report)
  then show ?thesis using e o by simp
qed

theorem chaining_observes_inner_rejection_witness:
  "0 < length (heap (snd (new_object (snd (Promise_Reject True (ErrorObject 7 False) initial)))))
   \<and> mState (heap (ProcessNextEvent (fst (ResolveInternal 1 (Some (PromiseObject 0)) AsyncTask
         (snd (new_object (snd (Promise_Reject True (ErrorObject 7 False) initial))))))) ! 0) = Rejected
   \<and> mResult (heap (ProcessNextEvent (fst (ResolveInternal 1 (Some (PromiseObject 0)) AsyncTask
         (snd (new_object (snd (Promise_Reject True (ErrorObject 7 False) initial))))))) ! 0)
       = ErrorObject 7 False
   \<and> reporters (destructor 0 (ProcessNextEvent (fst (ResolveInternal 1 (Some (PromiseObject 0)) AsyncTask
         (snd (new_object (snd (Promise_Reject True (ErrorObject 7 False) initial)))))))) = []"
proof -
  let ?w = "snd (new_object (snd (Promise_Reject True (ErrorObject 7 False) initial)))"
  let ?w1 = "fst (ResolveInternal 1 (Some (PromiseObject 0)) AsyncTask ?w)"
  have h: "0 < length (heap ?w)" by code_simp
  have s: "(step True)\<^sup>*\<^sup>* ?w1 (ProcessNextEvent ?w1)"
    by (rule r_into_rtranclp) (rule step.event)
  have e: "mState (heap (ProcessNextEvent ?w1) ! 0) = Rejected
     \<and> mResult (heap (ProcessNextEvent ?w1) ! 0) = ErrorObject 7 False
     \<and> reporters (ProcessNextEvent ?w1) = []"
    by code_simp
  from chaining_observes_inner_rejection [OF h, where native = True and p = 1 and a = AsyncTask] s e h show ?thesis
    by simp
qed

subsection \<open>The order of the calls\<close>

lemma calls_AppendCallbacks [simp]: "calls (AppendCallbacks p a b w) = calls w"
  by (simp add: AppendCallbacks_def Let_def split: option.splits)

lemma calls_RunTask_swap [simp]: "calls (fst (RunTask_swap p w)) = calls w"
  by (simp add: RunTask_swap_def Let_def)

lemma calls_RunResolveTask [simp]: "calls (fst (RunResolveTask p v st a w)) = calls w"
  by (simp add: RunResolveTask_def)

lemma calls_RejectInternal [simp]: "calls (fst (RejectInternal p v a w)) = calls w"
  by (simp add: RejectInternal_def)

lemma calls_ResolveInternal [simp]: "calls (fst (ResolveInternal p v a w)) = calls w"
  by (simp add: ResolveInternal_def Let_def split: option.splits)

lemma calls_Call [simp]: "calls (fst (Call cb v w)) = calls w @ [(cb, v)]"
  by (simp add: Call_def Let_def split: PromiseCallback.splits outcome.splits Task.splits)

text \<open>The calls are entered in the order of the waiting list, each before the calls it sets off.\<close>

lemma calls_drain: "\<exists>L. calls (drain w cs) = calls w @ L \<and> subseq cs L"
proof (induction w cs rule: drain.induct)
  case (1 w)
  then show ?case by simp
next
  case (2 w cb v rest)
  obtain w' nested where c: "Call cb v w = (w', nested)" by (cases "Call cb v w")
  from "2.IH" [OF c [symmetric]] obtain L
    where L: "calls (drain w' (nested @ rest)) = calls w' @ L" "subseq (nested @ rest) L"
    by blast
  have "calls w' = calls w @ [(cb, v)]" using calls_Call [of cb v w] c by simp
  moreover have "subseq rest L"
    using L(2) by (meson list_emb_append2 subseq_order.order_refl subseq_order.trans)
  ultimately show ?case using L(1) c by (auto intro!: exI [of _ "(cb, v) # L"])
qed

lemma drain_as_fold: "drain w cs = fold (\<lambda>c x. drain x [c]) cs w"
proof (induction cs arbitrary: w)
  case Nil
  show ?case by simp
next
  case (Cons c cs)
  have "drain w (c # cs) = drain (drain w [c]) cs"
    using drain_append [of w "[c]" cs] by simp
  then show ?case using Cons by simp
qed


lemma AppendCallbacks_at_end:
  assumes "p < length (heap w)"
  shows "mResolveCallbacks (heap (AppendCallbacks p a b w) ! p)
           = mResolveCallbacks (heap w ! p) @ (case a of None \<Rightarrow> [] | Some c \<Rightarrow> [c])"
    and "mRejectCallbacks (heap (AppendCallbacks p a b w) ! p)
           = mRejectCallbacks (heap w ! p) @ (case b of None \<Rightarrow> [] | Some c \<Rightarrow> [c])"
  using assms by (cases a; cases b; simp add: AppendCallbacks_def Let_def)+

text \<open>A pending promise with three \<open>then\<close> calls, in the middle of its resolver task:
  \<open>SetResult\<close> and \<open>SetState\<close> are done, \<open>RunTask\<close> is next.\<close>

definition three_callbacks :: world where
  "three_callbacks =
     modify 0 (\<lambda>x. x\<lparr> mResult := NumberValue 42, mState := Resolved \<rparr>)
       (snd (Then 0 (Some 3) None (snd (Then 0 (Some 2) None (snd (Then 0 (Some 1) None
          (snd (new_object initial))))))))"

text \<open>
  Claim C5. On a settled promise, \<open>RunTask\<close> takes the whole callback array of the
  settled state, paired with \<open>mResult\<close>, and leaves both arrays of the promise empty; it
  makes the taken calls one after the other, each with all that it sets off, so they are
  entered in the list of calls in the order of the array; and \<open>AppendCallbacks\<close> appends
  at the end of an array, so the order of the array is the order of registration.
\<close>

theorem RunTask_in_registration_order:
  assumes "p < length (heap w)" and "mState (heap w ! p) \<noteq> Pending"
  shows "\<exists>L. RunTask_swap p w =
             (modify p (\<lambda>x. x\<lparr> mResolveCallbacks := [], mRejectCallbacks := [] \<rparr>) w,
              map (\<lambda>cb. (cb, mResult (heap w ! p)))
                (if mState (heap w ! p) = Resolved then mResolveCallbacks (heap w ! p)
                 else mRejectCallbacks (heap w ! p)))
       \<and> mResolveCallbacks (heap (fst (RunTask_swap p w)) ! p) = []
       \<and> mRejectCallbacks (heap (fst (RunTask_swap p w)) ! p) = []
       \<and> RunTask p w = fold (\<lambda>c x. drain x [c]) (snd (RunTask_swap p w)) (fst (RunTask_swap p w))
       \<and> calls (RunTask p w) = calls w @ L
       \<and> subseq (snd (RunTask_swap p w)) L
       \<and> mResolveCallbacks (heap (AppendCallbacks p (Some c) b w) ! p)
            = mResolveCallbacks (heap w ! p) @ [c]
       \<and> mRejectCallbacks (heap (AppendCallbacks p a (Some c) w) ! p)
            = mRejectCallbacks (heap w ! p) @ [c]"
proof -
  obtain L where L: "calls (drain (fst (RunTask_swap p w)) (snd (RunTask_swap p w)))
      = calls (fst (RunTask_swap p w)) @ L" "subseq (snd (RunTask_swap p w)) L"
    using calls_drain by blast
  have s: "RunTask_swap p w =
             (modify p (\<lambda>x. x\<lparr> mResolveCallbacks := [], mRejectCallbacks := [] \<rparr>) w,
              map (\<lambda>cb. (cb, mResult (heap w ! p)))
                (if mState (heap w ! p) = Resolved then mResolveCallbacks (heap w ! p)
                 else mRejectCallbacks (heap w ! p)))"
    using assms(1) by (simp add: RunTask_swap_def Let_def)
  have e: "mResolveCallbacks (heap (fst (RunTask_swap p w)) ! p) = []
       \<and> mRejectCallbacks (heap (fst (RunTask_swap p w)) ! p) = []"
    using assms(1) by (simp add: s)
  have f: "RunTask p w = fold (\<lambda>c x. drain x [c]) (snd (RunTask_swap p w)) (fst (RunTask_swap p w))"
    by (simp add: RunTask_def exec_def drain_as_fold [symmetric])
  have c: "calls (RunTask p w) = calls w @ L"
    using L(1) by (simp add: RunTask_def exec_def)
  show ?thesis
    using s e f c L(2) AppendCallbacks_at_end [OF assms(1)] by (intro exI [of _ L]) simp
qed

theorem RunTask_in_registration_order_witness:
  "0 < length (heap three_callbacks) \<and> mState (heap three_callbacks ! 0) \<noteq> Pending
   \<and> mResolveCallbacks (heap three_callbacks ! 0)
       = [WrapperPromiseCallback 1 TaskResolve 1, WrapperPromiseCallback 2 TaskResolve 2,
          WrapperPromiseCallback 3 TaskResolve 3]
   \<and> snd (RunTask_swap 0 three_callbacks)
       = [(WrapperPromiseCallback 1 TaskResolve 1, NumberValue 42),
          (WrapperPromiseCallback 2 TaskResolve 2, NumberValue 42),
          (WrapperPromiseCallback 3 TaskResolve 3, NumberValue 42)]
   \<and> calls (RunTask 0 three_callbacks)
       = [(WrapperPromiseCallback 1 TaskResolve 1, NumberValue 42),
          (WrapperPromiseCallback 2 TaskResolve 2, NumberValue 42),
          (WrapperPromiseCallback 3 TaskResolve 3, NumberValue 42)]
   \<and> (\<exists>L. calls (RunTask 0 three_callbacks) = calls three_callbacks @ L
          \<and> subseq (snd (RunTask_swap 0 three_callbacks)) L)"
proof -
  have h1: "0 < length (heap three_callbacks)" by code_simp
  have h2: "mState (heap three_callbacks ! 0) \<noteq> Pending" by code_simp
  have e: "mResolveCallbacks (heap three_callbacks ! 0)
       = [WrapperPromiseCallback 1 TaskResolve 1, WrapperPromiseCallback 2 TaskResolve 2,
          WrapperPromiseCallback 3 TaskResolve 3]
   \<and> snd (RunTask_swap 0 three_callbacks)
       = [(WrapperPromiseCallback 1 TaskResolve 1, NumberValue 42),
          (WrapperPromiseCallback 2 TaskResolve 2, NumberValue 42),
          (WrapperPromiseCallback 3 TaskResolve 3, NumberValue 42)]
   \<and> calls (RunTask 0 three_callbacks)
       = [(WrapperPromiseCallback 1 TaskResolve 1, NumberValue 42),
          (WrapperPromiseCallback 2 TaskResolve 2, NumberValue 42),
          (WrapperPromiseCallback 3 TaskResolve 3, NumberValue 42)]"
    by code_simp
  from RunTask_in_registration_order [OF h1 h2] obtain L
    where "calls (RunTask 0 three_callbacks) = calls three_callbacks @ L"
      "subseq (snd (RunTask_swap 0 three_callbacks)) L" by blast
  with h1 h2 e show ?thesis by blast
qed

subsection \<open>The constructor\<close>

lemma MaybeResolveInternal_sets_pending:
  assumes "p < length (heap w)"
  shows "mResolvePending (heap (MaybeResolveInternal p v AsyncTask w) ! p)"
proof (cases "mResolvePending (heap w ! p)")
  case True
  then show ?thesis by (simp add: MaybeResolveInternal_def)
next
  case False
  obtain x cs where r: "ResolveInternal p v AsyncTask w = (x, cs)"
    by (cases "ResolveInternal p v AsyncTask w")
  from ResolveInternal_core_self [OF assms r] False r show ?thesis
    by (simp add: MaybeResolveInternal_def core_def)
qed

lemma MaybeRejectInternal_sets_pending:
  assumes "p < length (heap w)"
  shows "mResolvePending (heap (MaybeRejectInternal p v AsyncTask w) ! p)"
  using assms by (simp add: MaybeRejectInternal_def RejectInternal_async)

lemma JSCallback_sets_pending:
  "p < length (heap w) \<Longrightarrow> mResolvePending (heap (JSCallback p t v w) ! p)"
  by (simp add: JSCallback_def MaybeResolveInternal_sets_pending MaybeRejectInternal_sets_pending)

lemma JSCallback_ignored:
  "mResolvePending (heap w ! p) \<Longrightarrow> JSCallback p t v w = w"
  by (simp add: JSCallback_def MaybeResolveInternal_def MaybeRejectInternal_def)

lemma fold_JSCallback_ignored:
  "mResolvePending (heap w ! p) \<Longrightarrow> fold (\<lambda>c. JSCallback p (fst c) (snd c)) cs w = w"
  by (induction cs) (simp_all add: JSCallback_ignored)

text \<open>The world in which the constructor calls the executor: the new promise and its two
  functions exist.\<close>

definition before_executor :: "world \<Rightarrow> world" where
  "before_executor w =
     w\<lparr> heap := heap w @ [new_Promise],
        functionObjects := functionObjects w @
          [(length (heap w), TaskResolve), (length (heap w), TaskReject)] \<rparr>"

lemma Constructor_unfold:
  assumes "NS_IsMainThread w \<longrightarrow> aWindow"
  shows "Constructor aWindow True True aInit w =
     (Inr (length (heap w)),
      let w4 = fold (\<lambda>c. JSCallback (length (heap w)) (fst c) (snd c)) (capability_calls aInit)
                 (before_executor w)
      in case thrown aInit of None \<Rightarrow> w4
         | Some e \<Rightarrow> MaybeRejectInternal (length (heap w)) (Some e) AsyncTask w4)"
  using assms
  by (auto simp: Constructor_def new_object_def CreateFunction_def before_executor_def Let_def
      split: option.splits)

text \<open>
  Claim C7. With a window where one is needed and both functions made, the constructor
  returns the new promise. An executor that calls neither function and throws \<open>e\<close> makes
  the constructor queue the resolver task for \<open>Rejected\<close> with \<open>e\<close>, which settles the
  promise so when it runs; an executor whose first call of a function is \<open>(t, v)\<close> leaves
  exactly the world of that first call, whatever it calls or throws afterwards.
\<close>

theorem Constructor_first_settlement_wins:
  assumes "NS_IsMainThread w \<longrightarrow> aWindow"
  shows "fst (Constructor aWindow True True aInit w) = Inr (length (heap w))
       \<and> (capability_calls aInit = [] \<longrightarrow> thrown aInit = None \<longrightarrow>
            snd (Constructor aWindow True True aInit w) = before_executor w)
       \<and> (capability_calls aInit = [] \<longrightarrow> thrown aInit = Some e \<longrightarrow>
            snd (Constructor aWindow True True aInit w) =
              Dispatch (if NS_IsMainThread w then PromiseResolverTask (length (heap w)) e Rejected
                        else WorkerPromiseResolverTask (length (heap w)) e Rejected)
                (modify (length (heap w)) (\<lambda>x. x\<lparr> mResolvePending := True \<rparr>) (before_executor w)))
       \<and> (capability_calls aInit = (t, v) # rest \<longrightarrow>
            snd (Constructor aWindow True True aInit w)
              = JSCallback (length (heap w)) t v (before_executor w))
       \<and> (\<forall>w2. length (heap w) < length (heap w2) \<and> length (heap w) \<notin> forwarded_into w2 [] \<longrightarrow>
            mState (heap (Run (PromiseResolverTask (length (heap w)) e Rejected) w2) ! length (heap w))
              = Rejected
          \<and> mResult (heap (Run (PromiseResolverTask (length (heap w)) e Rejected) w2) ! length (heap w))
              = e)"
proof -
  let ?p = "length (heap w)"
  let ?b = "before_executor w"
  have p: "?p < length (heap ?b)" and n: "\<not> mResolvePending (heap ?b ! ?p)"
    by (simp_all add: before_executor_def new_Promise_def)
  have 1: "fst (Constructor aWindow True True aInit w) = Inr ?p"
    by (simp add: Constructor_unfold [OF assms])
  have 2: "snd (Constructor aWindow True True aInit w) = ?b"
    if "capability_calls aInit = []" "thrown aInit = None"
    using that by (simp add: Constructor_unfold [OF assms])
  have 3: "snd (Constructor aWindow True True aInit w) =
              Dispatch (if NS_IsMainThread w then PromiseResolverTask ?p e Rejected
                        else WorkerPromiseResolverTask ?p e Rejected)
                (modify ?p (\<lambda>x. x\<lparr> mResolvePending := True \<rparr>) ?b)"
    if "capability_calls aInit = []" "thrown aInit = Some e"
    using that n
    by (simp add: Constructor_unfold [OF assms] MaybeRejectInternal_def RejectInternal_async)
       (simp add: before_executor_def)
  have 4: "snd (Constructor aWindow True True aInit w) = JSCallback ?p t v ?b"
    if c: "capability_calls aInit = (t, v) # rest"
  proof -
    let ?w1 = "JSCallback ?p t v ?b"
    have s: "mResolvePending (heap ?w1 ! ?p)" by (rule JSCallback_sets_pending [OF p])
    then have "fold (\<lambda>c. JSCallback ?p (fst c) (snd c)) (capability_calls aInit) ?b = ?w1"
      using c by (simp add: fold_JSCallback_ignored)
    then show ?thesis
      using s by (simp add: Constructor_unfold [OF assms] MaybeRejectInternal_def Let_def
          split: option.splits)
  qed
  have 5: "mState (heap (Run (PromiseResolverTask ?p e Rejected) w2) ! ?p) = Rejected
          \<and> mResult (heap (Run (PromiseResolverTask ?p e Rejected) w2) ! ?p) = e"
    if "?p < length (heap w2)" "?p \<notin> forwarded_into w2 []" for w2
    using RunResolveTask_settles [OF that, of e Rejected] by (simp add: core_def)
  show ?thesis using 1 2 3 4 5 by blast
qed

text \<open>Two executors: one calls \<open>resolve(1)\<close>, then \<open>reject(2)\<close>, then throws 9; the other
  throws an error at once.\<close>

definition resolves_then_throws :: PromiseInit where
  "resolves_then_throws =
     \<lparr> capability_calls = [(TaskResolve, NumberValue 1), (TaskReject, NumberValue 2)],
       thrown = Some (NumberValue 9) \<rparr>"

definition throws_at_once :: PromiseInit where
  "throws_at_once = \<lparr> capability_calls = [], thrown = Some (ErrorObject 3 False) \<rparr>"

theorem Constructor_first_settlement_wins_witness:
  "NS_IsMainThread initial
   \<and> fst (Constructor True True True resolves_then_throws initial) = Inr 0
   \<and> capability_calls resolves_then_throws = (TaskResolve, NumberValue 1) # [(TaskReject, NumberValue 2)]
   \<and> snd (Constructor True True True resolves_then_throws initial)
       = JSCallback 0 TaskResolve (NumberValue 1) (before_executor initial)
   \<and> mState (heap (ProcessNextEvent (snd (Constructor True True True resolves_then_throws initial))) ! 0)
       = Resolved
   \<and> mResult (heap (ProcessNextEvent (snd (Constructor True True True resolves_then_throws initial))) ! 0)
       = NumberValue 1
   \<and> capability_calls throws_at_once = [] \<and> thrown throws_at_once = Some (ErrorObject 3 False)
   \<and> eventQueue (snd (Constructor True True True throws_at_once initial))
       = [PromiseResolverTask 0 (ErrorObject 3 False) Rejected]
   \<and> 0 < length (heap (snd (Constructor True True True throws_at_once initial)))
   \<and> 0 \<notin> forwarded_into (snd (Constructor True True True throws_at_once initial)) []
   \<and> mState (heap (Run (PromiseResolverTask 0 (ErrorObject 3 False) Rejected)
         (snd (Constructor True True True throws_at_once initial))) ! 0) = Rejected
   \<and> mResult (heap (Run (PromiseResolverTask 0 (ErrorObject 3 False) Rejected)
         (snd (Constructor True True True throws_at_once initial))) ! 0) = ErrorObject 3 False"
proof -
  have h: "NS_IsMainThread initial \<longrightarrow> True" by simp
  have l: "length (heap initial) = 0" by (simp add: initial_def)
  have c1: "capability_calls resolves_then_throws
      = (TaskResolve, NumberValue 1) # [(TaskReject, NumberValue 2)]"
    by (simp add: resolves_then_throws_def)
  have c2: "capability_calls throws_at_once = []" "thrown throws_at_once = Some (ErrorObject 3 False)"
    by (simp_all add: throws_at_once_def)
  have e: "mState (heap (ProcessNextEvent (snd (Constructor True True True resolves_then_throws initial))) ! 0)
       = Resolved
   \<and> mResult (heap (ProcessNextEvent (snd (Constructor True True True resolves_then_throws initial))) ! 0)
       = NumberValue 1
   \<and> eventQueue (snd (Constructor True True True throws_at_once initial))
       = [PromiseResolverTask 0 (ErrorObject 3 False) Rejected]
   \<and> 0 < length (heap (snd (Constructor True True True throws_at_once initial)))
   \<and> 0 \<notin> forwarded_into (snd (Constructor True True True throws_at_once initial)) []"
    by code_simp
  note a = Constructor_first_settlement_wins [OF h, of resolves_then_throws
      "ErrorObject 3 False" TaskResolve "NumberValue 1" "[(TaskReject, NumberValue 2)]", unfolded l]
  note b = Constructor_first_settlement_wins [OF h, of throws_at_once
      "ErrorObject 3 False" TaskResolve "NumberValue 1" "[]", unfolded l]
  from a c1 have "fst (Constructor True True True resolves_then_throws initial) = Inr 0"
    and "snd (Constructor True True True resolves_then_throws initial)
       = JSCallback 0 TaskResolve (NumberValue 1) (before_executor initial)" by blast+
  moreover from b e have "mState (heap (Run (PromiseResolverTask 0 (ErrorObject 3 False) Rejected)
         (snd (Constructor True True True throws_at_once initial))) ! 0) = Rejected
   \<and> mResult (heap (Run (PromiseResolverTask 0 (ErrorObject 3 False) Rejected)
         (snd (Constructor True True True throws_at_once initial))) ! 0) = ErrorObject 3 False"
    by blast
  moreover have "NS_IsMainThread initial" by (simp add: initial_def)
  ultimately show ?thesis using c1 c2 e by blast
qed

subsection \<open>Drain tasks and \<open>mTaskPending\<close>\<close>

fun drains :: "nat \<Rightarrow> runnable \<Rightarrow> bool" where
  "drains p (PromiseTask q) = (q = p)"
| "drains p (WorkerPromiseTask q) = (q = p)"
| "drains p _ = False"

fun settles_to :: "runnable \<Rightarrow> PromiseState option" where
  "settles_to (PromiseResolverTask p v st) = Some st"
| "settles_to (WorkerPromiseResolverTask p v st) = Some st"
| "settles_to _ = None"

text \<open>The number of queued tasks that will run \<open>RunTask\<close> of promise \<open>p\<close>.\<close>

definition queued_drains :: "world \<Rightarrow> nat \<Rightarrow> nat" where
  "queued_drains w p = length (filter (drains p) (eventQueue w))"

text \<open>
  The queue and the flags agree: a promise has one queued drain task when \<open>mTaskPending\<close>
  is set and none otherwise, the flag is set on settled promises only, and no resolver
  task settles to \<open>Pending\<close>.
\<close>

definition coalesced :: "world \<Rightarrow> bool" where
  "coalesced w \<longleftrightarrow>
     (\<forall>p. queued_drains w p = (if p < length (heap w) \<and> mTaskPending (heap w ! p) then 1 else 0))
   \<and> (\<forall>p. p < length (heap w) \<and> mTaskPending (heap w ! p) \<longrightarrow> mState (heap w ! p) \<noteq> Pending)
   \<and> (\<forall>r. r \<in> set (eventQueue w) \<longrightarrow> settles_to r \<noteq> Some Pending)"

lemma coalesced_same:
  assumes "coalesced w" and "eventQueue w' = eventQueue w" and "length (heap w') = length (heap w)"
    and "\<And>p. p < length (heap w) \<Longrightarrow> mTaskPending (heap w' ! p) = mTaskPending (heap w ! p)"
    and "\<And>p. p < length (heap w) \<Longrightarrow> mTaskPending (heap w ! p) \<Longrightarrow> mState (heap w' ! p) \<noteq> Pending"
  shows "coalesced w'"
  using assms unfolding coalesced_def queued_drains_def by auto

lemma coalesced_modify:
  assumes "coalesced w" and "\<And>x. mTaskPending (f x) = mTaskPending x"
    and "\<And>x. mState x \<noteq> Pending \<Longrightarrow> mState (f x) \<noteq> Pending"
  shows "coalesced (modify p f w)"
proof (rule coalesced_same [OF assms(1)])
  fix q assume q: "q < length (heap w)"
  show "mTaskPending (heap (modify p f w) ! q) = mTaskPending (heap w ! q)"
    using q assms(2) by (cases "q = p") simp_all
  show "mState (heap (modify p f w) ! q) \<noteq> Pending" if "mTaskPending (heap w ! q)"
    using q that assms(1,3) by (cases "q = p") (simp_all add: coalesced_def)
qed simp_all

lemma coalesced_Dispatch_resolver:
  assumes "coalesced w" and "settles_to r \<noteq> None" and "settles_to r \<noteq> Some Pending"
  shows "coalesced (Dispatch r w)"
proof -
  have "\<not> drains p r" for p using assms(2) by (cases r) simp_all
  then show ?thesis
    using assms(1,3) by (auto simp: coalesced_def queued_drains_def)
qed

lemma coalesced_schedule:
  assumes "coalesced w" and "p < length (heap w)" and "mState (heap w ! p) \<noteq> Pending"
    and "\<not> mTaskPending (heap w ! p)" and "drains p r" "\<And>q. q \<noteq> p \<Longrightarrow> \<not> drains q r"
    "settles_to r = None"
  shows "coalesced (modify p (\<lambda>x. x\<lparr> mTaskPending := True \<rparr>) (Dispatch r w))"
proof -
  let ?w' = "modify p (\<lambda>x. x\<lparr> mTaskPending := True \<rparr>) (Dispatch r w)"
  have "queued_drains ?w' q = (if q < length (heap ?w') \<and> mTaskPending (heap ?w' ! q) then 1 else 0)" for q
    using assms by (cases "q = p") (auto simp: coalesced_def queued_drains_def)
  moreover have "mState (heap ?w' ! q) \<noteq> Pending"
    if "q < length (heap ?w')" "mTaskPending (heap ?w' ! q)" for q
    using assms that by (cases "q = p") (auto simp: coalesced_def)
  moreover have "settles_to x \<noteq> Some Pending" if "x \<in> set (eventQueue ?w')" for x
    using assms that by (auto simp: coalesced_def)
  ultimately show ?thesis unfolding coalesced_def by blast
qed

lemma coalesced_AppendCallbacks:
  assumes "coalesced w" and "p < length (heap w)"
  shows "coalesced (AppendCallbacks p a b w)"
proof -
  let ?w1 = "case a of None \<Rightarrow> w
     | Some cb \<Rightarrow> modify p (\<lambda>x. x\<lparr> mResolveCallbacks := mResolveCallbacks x @ [cb] \<rparr>) w"
  let ?w2 = "case b of None \<Rightarrow> ?w1
     | Some cb \<Rightarrow> modify p (\<lambda>x. x\<lparr> mHadRejectCallback := True,
                            mRejectCallbacks := mRejectCallbacks x @ [cb] \<rparr>) ?w1"
  have 1: "coalesced ?w1" using assms(1) by (cases a) (simp_all add: coalesced_modify)
  have 2: "coalesced ?w2" using 1 by (cases b) (simp_all add: coalesced_modify)
  have l: "p < length (heap ?w2)" using assms(2) by (cases a; cases b) simp_all
  have "coalesced (modify p (\<lambda>x. x\<lparr> mTaskPending := True \<rparr>)
          (Dispatch (if NS_IsMainThread ?w2 then PromiseTask p else WorkerPromiseTask p) ?w2))"
    if "mState (heap ?w2 ! p) \<noteq> Pending" "\<not> mTaskPending (heap ?w2 ! p)"
    by (rule coalesced_schedule [OF 2 l that]) simp_all
  then show ?thesis using 2 by (simp add: AppendCallbacks_def Let_def)
qed

lemma coalesced_RunTask_swap: "coalesced w \<Longrightarrow> coalesced (fst (RunTask_swap p w))"
  by (simp add: RunTask_swap_def Let_def coalesced_modify)

lemma coalesced_RunResolveTask:
  assumes "coalesced w" and "st \<noteq> Pending"
  shows "coalesced (fst (RunResolveTask p v st a w))"
proof (cases a)
  case AsyncTask
  then show ?thesis
    using assms by (simp add: RunResolveTask_def coalesced_Dispatch_resolver)
next
  case SyncTask
  have "coalesced (modify p (\<lambda>x. x\<lparr> mResult := v, mState := st \<rparr>) w)"
    using assms by (simp add: coalesced_modify)
  then show ?thesis
    using SyncTask by (simp add: RunResolveTask_def coalesced_RunTask_swap)
qed

lemma coalesced_pending:
  "coalesced w \<Longrightarrow> coalesced (modify p (\<lambda>x. x\<lparr> mResolvePending := True \<rparr>) w)"
  by (simp add: coalesced_modify)

lemma coalesced_RejectInternal:
  "coalesced w \<Longrightarrow> coalesced (fst (RejectInternal p v a w))"
  by (simp add: RejectInternal_def coalesced_RunResolveTask coalesced_pending)

lemma coalesced_ResolveInternal:
  assumes "coalesced w" shows "coalesced (fst (ResolveInternal p v a w))"
proof -
  let ?w1 = "modify p (\<lambda>x. x\<lparr> mResolvePending := True \<rparr>) w"
  have 1: "coalesced ?w1" by (rule coalesced_pending [OF assms])
  have "coalesced (AppendCallbacks n x y ?w1)" if "UNWRAP_OBJECT_Promise ?w1 u = Some n" for u n x y
  proof -
    have "n < length (heap ?w1)"
      using that by (auto simp: UNWRAP_OBJECT_Promise_def split: jsval.splits if_splits)
    then show ?thesis by (rule coalesced_AppendCallbacks [OF 1])
  qed
  then show ?thesis
    using 1 by (simp add: ResolveInternal_def Let_def coalesced_RunResolveTask split: option.splits)
qed

lemma coalesced_calls [simp]: "coalesced (w\<lparr> calls := c \<rparr>) = coalesced w"
  by (simp add: coalesced_def queued_drains_def)

lemma coalesced_Call: "coalesced w \<Longrightarrow> coalesced (fst (Call cb v w))"
  by (simp add: Call_def Let_def coalesced_ResolveInternal coalesced_RejectInternal
      split: PromiseCallback.splits outcome.splits Task.splits)

lemma coalesced_drain: "coalesced w \<Longrightarrow> coalesced (drain w cs)"
  by (rule drain_keeps [where P = coalesced]) (simp_all add: coalesced_Call)

lemma coalesced_exec: "coalesced (fst a) \<Longrightarrow> coalesced (exec a)"
  by (simp add: exec_def coalesced_drain)

lemma coalesced_MaybeResolveInternal:
  "coalesced w \<Longrightarrow> coalesced (MaybeResolveInternal p v a w)"
  by (simp add: MaybeResolveInternal_def coalesced_exec coalesced_ResolveInternal)



text \<open>Taking the first event off the queue, and clearing the flag if it is a drain task.\<close>

lemma coalesced_pop_resolver:
  assumes "coalesced w" and "eventQueue w = r # rest" and "settles_to r = Some st"
  shows "coalesced (w\<lparr> eventQueue := rest \<rparr>)" and "st \<noteq> Pending"
proof -
  have "\<not> drains p r" for p using assms(3) by (cases r) simp_all
  then show "coalesced (w\<lparr> eventQueue := rest \<rparr>)"
    using assms(1,2) by (auto simp: coalesced_def queued_drains_def)
  show "st \<noteq> Pending" using assms by (auto simp: coalesced_def)
qed

lemma coalesced_pop_drain:
  assumes "coalesced w" and "eventQueue w = r # rest" and "drains p r"
    and "\<And>q. q \<noteq> p \<Longrightarrow> \<not> drains q r"
  shows "coalesced (modify p (\<lambda>x. x\<lparr> mTaskPending := False \<rparr>) (w\<lparr> eventQueue := rest \<rparr>))"
    and "p < length (heap w)" and "mState (heap w ! p) \<noteq> Pending"
proof -
  let ?w' = "modify p (\<lambda>x. x\<lparr> mTaskPending := False \<rparr>) (w\<lparr> eventQueue := rest \<rparr>)"
  have c: "queued_drains w p = Suc (length (filter (drains p) rest))"
    using assms(2,3) by (simp add: queued_drains_def)
  then have v: "p < length (heap w) \<and> mTaskPending (heap w ! p)"
    using assms(1) unfolding coalesced_def by (metis nat.simps(3))
  then show "p < length (heap w)" and "mState (heap w ! p) \<noteq> Pending"
    using assms(1) by (auto simp: coalesced_def)
  have z: "length (filter (drains p) rest) = 0"
    using c v assms(1) unfolding coalesced_def by (metis One_nat_def nat.inject)
  have "queued_drains ?w' q = (if q < length (heap ?w') \<and> mTaskPending (heap ?w' ! q) then 1 else 0)" for q
  proof (cases "q = p")
    case True
    then show ?thesis using z v by (simp add: queued_drains_def)
  next
    case False
    then have "queued_drains ?w' q = queued_drains w q"
      using assms(2,4) by (simp add: queued_drains_def)
    then show ?thesis using assms(1) False by (simp add: coalesced_def)
  qed
  moreover have "mState (heap ?w' ! q) \<noteq> Pending"
    if "q < length (heap ?w')" "mTaskPending (heap ?w' ! q)" for q
    using assms(1) that v by (cases "q = p") (auto simp: coalesced_def)
  moreover have "settles_to x \<noteq> Some Pending" if "x \<in> set (eventQueue ?w')" for x
    using assms(1,2) that by (auto simp: coalesced_def)
  ultimately show "coalesced ?w'" unfolding coalesced_def by blast
qed

lemma coalesced_ProcessNextEvent:
  assumes "coalesced w" shows "coalesced (ProcessNextEvent w)"
proof (cases "eventQueue w")
  case Nil
  then show ?thesis using assms by (simp add: ProcessNextEvent_def)
next
  case (Cons r rest)
  have d: "coalesced (RunTask p (modify p (\<lambda>x. x\<lparr> mTaskPending := False \<rparr>) (w\<lparr> eventQueue := rest \<rparr>)))"
    if "drains p r" "\<And>q. q \<noteq> p \<Longrightarrow> \<not> drains q r" for p
    using coalesced_pop_drain(1) [OF assms Cons that]
    by (simp add: RunTask_def coalesced_exec coalesced_RunTask_swap)
  have s: "coalesced (exec (RunResolveTask p v st SyncTask (w\<lparr> eventQueue := rest \<rparr>)))"
    if "settles_to r = Some st" for p v st
    using coalesced_pop_resolver [OF assms Cons that]
    by (simp add: coalesced_exec coalesced_RunResolveTask)
  show ?thesis
    using Cons d s by (cases r) (simp_all add: ProcessNextEvent_def)
qed

lemma coalesced_new_object: "coalesced w \<Longrightarrow> coalesced (snd (new_object w))"
  unfolding coalesced_def queued_drains_def new_object_def
  by (auto simp: nth_append new_Promise_def)





lemma coalesced_Promise_Resolve:
  "coalesced w \<Longrightarrow> coalesced (snd (Promise_Resolve aWindow v w))"
  by (simp add: Promise_Resolve_def case_prod_beta coalesced_MaybeResolveInternal
      coalesced_new_object)


lemma eventQueue_MaybeReportRejected [simp]:
  "eventQueue (MaybeReportRejected p w) = eventQueue w"
  by (simp add: MaybeReportRejected_def Let_def split: option.splits)







lemma coalesced_initial: "coalesced initial"
  by (simp add: coalesced_def queued_drains_def initial_def)

lemma eventQueue_AppendCallbacks:
  assumes "p < length (heap w)"
  shows "eventQueue (AppendCallbacks p a b w) = eventQueue w @
           (if mState (heap w ! p) \<noteq> Pending \<and> \<not> mTaskPending (heap w ! p)
            then [if NS_IsMainThread w then PromiseTask p else WorkerPromiseTask p] else [])"
    and "mTaskPending (heap (AppendCallbacks p a b w) ! p)
           = (mTaskPending (heap w ! p) \<or> mState (heap w ! p) \<noteq> Pending)"
    and "mState (heap (AppendCallbacks p a b w) ! p) = mState (heap w ! p)"
    and "mResult (heap (AppendCallbacks p a b w) ! p) = mResult (heap w ! p)"
  using assms by (cases a; cases b; simp add: AppendCallbacks_def Let_def)+



subsection \<open>Registration after settlement\<close>

lemma calls_new_object [simp]: "calls (snd (new_object w)) = calls w"
  by (simp add: new_object_def)

text \<open>One promise, made by \<open>Promise.resolve(v)\<close>, after its resolver task has run.\<close>

definition resolved_with :: "jsval \<Rightarrow> world" where
  "resolved_with v = ProcessNextEvent (snd (Promise_Resolve True v initial))"

text \<open>
  Claim C8. Registering on a settled promise, through \<open>AppendCallbacks\<close> or \<open>then\<close>, makes
  no call: the list of calls is unchanged, and one drain task for the promise is queued.
  When that task runs it calls the callbacks that were registered for the settled state,
  each once, the new one last, and the arrays of the promise are empty from then on.
\<close>

theorem late_registration_runs_in_a_task:
  assumes "coalesced w" and "p < length (heap w)" and "mState (heap w ! p) \<noteq> Pending"
  shows "calls (AppendCallbacks p a b w) = calls w
       \<and> calls (snd (Then p f g w)) = calls w
       \<and> queued_drains (AppendCallbacks p a b w) p = 1
       \<and> queued_drains (snd (Then p f g w)) p = 1
       \<and> Run (PromiseTask p) (AppendCallbacks p (Some c) (Some d) w)
            = fold (\<lambda>c x. drain x [c])
                (map (\<lambda>cb. (cb, mResult (heap w ! p)))
                   (if mState (heap w ! p) = Resolved then mResolveCallbacks (heap w ! p) @ [c]
                    else mRejectCallbacks (heap w ! p) @ [d]))
                (modify p (\<lambda>x. x\<lparr> mResolveCallbacks := [], mRejectCallbacks := [] \<rparr>)
                   (modify p (\<lambda>x. x\<lparr> mTaskPending := False \<rparr>)
                      (AppendCallbacks p (Some c) (Some d) w)))
       \<and> (\<exists>L. calls (Run (PromiseTask p) (AppendCallbacks p (Some c) (Some d) w)) = calls w @ L
              \<and> subseq [(if mState (heap w ! p) = Resolved then c else d, mResult (heap w ! p))] L)"
proof -
  let ?w1 = "AppendCallbacks p (Some c) (Some d) w"
  let ?w2 = "modify p (\<lambda>x. x\<lparr> mTaskPending := False \<rparr>) ?w1"
  let ?taken = "map (\<lambda>cb. (cb, mResult (heap w ! p)))
                   (if mState (heap w ! p) = Resolved then mResolveCallbacks (heap w ! p) @ [c]
                    else mRejectCallbacks (heap w ! p) @ [d])"
  have q: "queued_drains (AppendCallbacks p a b w) p = 1"
    if "coalesced w" "p < length (heap w)" "mState (heap w ! p) \<noteq> Pending" for a b w
    using coalesced_AppendCallbacks [OF that(1,2), of a b] eventQueue_AppendCallbacks(2) [OF that(2), of a b]
      that(2,3)
    by (simp add: coalesced_def)
  have n: "coalesced (snd (new_object w))" "p < length (heap (snd (new_object w)))"
    "mState (heap (snd (new_object w)) ! p) \<noteq> Pending"
    using assms by (simp_all add: coalesced_new_object nth_append)
  have t: "snd (Then p f g w) = AppendCallbacks p (Some (Factory (length (heap w)) f TaskResolve))
      (Some (Factory (length (heap w)) g TaskReject)) (snd (new_object w))"
    by (simp add: Then_def new_object_def)
  have p1: "p < length (heap ?w1)" using assms(2) by simp
  have s: "RunTask_swap p ?w2 =
      (modify p (\<lambda>x. x\<lparr> mResolveCallbacks := [], mRejectCallbacks := [] \<rparr>) ?w2, ?taken)"
    using p1 by (simp add: RunTask_swap_def Let_def eventQueue_AppendCallbacks(3,4) [OF assms(2)]
        AppendCallbacks_at_end [OF assms(2)])
  have r: "Run (PromiseTask p) ?w1 = fold (\<lambda>c x. drain x [c]) ?taken
      (modify p (\<lambda>x. x\<lparr> mResolveCallbacks := [], mRejectCallbacks := [] \<rparr>) ?w2)"
    by (simp add: RunTask_def exec_def s drain_as_fold [symmetric])
  obtain L where L: "calls (drain (fst (RunTask_swap p ?w2)) ?taken)
      = calls (fst (RunTask_swap p ?w2)) @ L" "subseq ?taken L"
    using calls_drain by blast
  have "subseq [(if mState (heap w ! p) = Resolved then c else d, mResult (heap w ! p))] ?taken"
    by (auto intro!: list_emb_append2)
  with L(2) have "subseq [(if mState (heap w ! p) = Resolved then c else d, mResult (heap w ! p))] L"
    using subseq_order.trans by blast
  moreover have "calls (Run (PromiseTask p) ?w1) = calls w @ L"
    using L(1) by (simp add: RunTask_def exec_def s)
  ultimately have e: "\<exists>L. calls (Run (PromiseTask p) ?w1) = calls w @ L
      \<and> subseq [(if mState (heap w ! p) = Resolved then c else d, mResult (heap w ! p))] L"
    by blast
  show ?thesis
    using q [OF assms] q [OF n] r e by (simp add: t)
qed

theorem late_registration_runs_in_a_task_witness:
  "coalesced (resolved_with (NumberValue 5)) \<and> 0 < length (heap (resolved_with (NumberValue 5)))
   \<and> mState (heap (resolved_with (NumberValue 5)) ! 0) \<noteq> Pending
   \<and> calls (resolved_with (NumberValue 5)) = []
   \<and> calls (snd (Then 0 (Some 1) None (resolved_with (NumberValue 5)))) = []
   \<and> queued_drains (snd (Then 0 (Some 1) None (resolved_with (NumberValue 5)))) 0 = 1
   \<and> eventQueue (snd (Then 0 (Some 1) None (resolved_with (NumberValue 5)))) = [PromiseTask 0]
   \<and> calls (ProcessNextEvent (snd (Then 0 (Some 1) None (resolved_with (NumberValue 5)))))
       = [(WrapperPromiseCallback 1 TaskResolve 1, NumberValue 5)]"
proof -
  let ?w = "resolved_with (NumberValue 5)"
  have c: "coalesced ?w"
    unfolding resolved_with_def
    by (intro coalesced_ProcessNextEvent coalesced_Promise_Resolve coalesced_initial)
  have h: "0 < length (heap ?w)" by code_simp
  have n: "mState (heap ?w ! 0) \<noteq> Pending" by code_simp
  have e: "calls ?w = []
     \<and> eventQueue (snd (Then 0 (Some 1) None ?w)) = [PromiseTask 0]
     \<and> calls (ProcessNextEvent (snd (Then 0 (Some 1) None ?w)))
         = [(WrapperPromiseCallback 1 TaskResolve 1, NumberValue 5)]"
    by code_simp
  from late_registration_runs_in_a_task [OF c h n, where f = "Some 1" and g = None] e
  show ?thesis using c h n by simp
qed

subsection \<open>Chaining\<close>














end
